theory Spec2Isabelle
  imports Main
begin

section \<open>ATAC fragment assembly and duplicate collapsing (sinto/fragments.py)\<close>

subsection \<open>Python values, errors and dictionaries\<close>

text \<open>The exceptions the modelled code can raise.\<close>

datatype error =
  ValueError | KeyError | IndexError | AttributeError | NameError | FileNotFoundError | OSError

text \<open>
  A Python \<open>dict\<close> keeps its keys in insertion order: an association list with one pair
  per key. Assigning to a key that exists keeps its position, a new key goes last.
\<close>

fun dict_set :: "('k \<times> 'v) list \<Rightarrow> 'k \<Rightarrow> 'v \<Rightarrow> ('k \<times> 'v) list" where
  "dict_set [] k v = [(k, v)]"
| "dict_set ((k', v') # d) k v =
     (if k' = k then (k, v) # d else (k', v') # dict_set d k v)"

text \<open>\<open>d[k][field] = x\<close> on a key that exists: the stored value is changed in place.\<close>

fun dict_modify :: "('k \<times> 'v) list \<Rightarrow> 'k \<Rightarrow> ('v \<Rightarrow> 'v) \<Rightarrow> ('k \<times> 'v) list" where
  "dict_modify [] k g = []"
| "dict_modify ((k', v') # d) k g =
     (if k' = k then (k', g v') # d else (k', v') # dict_modify d k g)"

text \<open>\<open>del d[k]\<close>.\<close>

definition dict_del :: "('k \<times> 'v) list \<Rightarrow> 'k \<Rightarrow> ('k \<times> 'v) list" where
  "dict_del d k = filter (\<lambda>kv. fst kv \<noteq> k) d"

text \<open>\<open>dict(pairs)\<close>: the pairs are stored one after the other, a later pair overwrites.\<close>

definition dict_of :: "('k \<times> 'v) list \<Rightarrow> ('k \<times> 'v) list" where
  "dict_of ps = foldl (\<lambda>d kv. dict_set d (fst kv) (snd kv)) [] ps"

subsection \<open>Aligned segments and in-progress fragments\<close>

text \<open>
  The attributes of a \<open>pysam.AlignedSegment\<close> that the code reads. \<open>qname\<close> is pysam's
  older name of \<open>query_name\<close>; \<open>reference_end\<close> is \<open>None\<close> for a read without an
  alignment end.
\<close>

record segment =
  query_name :: string
  tags :: "(string \<times> string) list"
  mapping_quality :: int
  reference_name :: "string option"
  reference_start :: int
  reference_end :: "int option"
  query_alignment_start :: int
  is_reverse :: bool

text \<open>
  The inner dictionary \<open>{"chrom": .., "start": .., "end": .., "cell": ..}\<close>; its
  \<open>values()\<close> come in this order.
\<close>

record fragment =
  f_chrom :: "string option"
  f_start :: "int option"
  f_end :: "int option"
  f_cell :: "string option"

type_synonym fragments = "(string \<times> fragment) list"

subsection \<open>updateFragmentDict (lines 123-194)\<close>

text \<open>
  Lines 157-159: \<open>cells is not None and cell_barcode is not None\<close> and the barcode is
  not in the list.
\<close>

fun not_in_cells :: "string list option \<Rightarrow> string option \<Rightarrow> bool" where
  "not_in_cells (Some cs) (Some b) = (b \<notin> set cs)"
| "not_in_cells _ _ = False"

text \<open>
  Lines 152-156. A compiled regex is given by what \<open>match(name)\<close> followed by \<open>group()\<close>
  yields: \<open>None\<close> when \<open>match\<close> returns \<open>None\<close>, and then \<open>re_match.group()\<close> raises
  AttributeError. \<open>utils.scan_tags\<close> is not part of the source file and is a parameter;
  only the first component of its result is used.
\<close>

definition cell_barcode_of ::
  "((string \<times> string) list \<Rightarrow> string \<Rightarrow> string option \<times> string option) \<Rightarrow>
   segment \<Rightarrow> string \<Rightarrow> (string \<Rightarrow> string option) option \<Rightarrow> error + string option" where
  "cell_barcode_of scan_tags segment cellbarcode readname_barcode =
     (case readname_barcode of
        Some rx \<Rightarrow>
          (case rx (query_name segment) of
             None \<Rightarrow> Inl AttributeError
           | Some g \<Rightarrow> Inr (Some g))
      | None \<Rightarrow> Inr (fst (scan_tags (tags segment) cellbarcode)))"

text \<open>Lines 174-177 and the assignment of lines 179-182 and 190-193.\<close>

definition set_position :: "segment \<Rightarrow> int \<Rightarrow> fragment \<Rightarrow> fragment" where
  "set_position segment rend0 f =
     (let rstart = reference_start segment + query_alignment_start segment
      in if is_reverse segment then f\<lparr>f_end := Some (rend0 - 5)\<rparr>
         else f\<lparr>f_start := Some (rstart + 4)\<rparr>)"

definition updateFragmentDict ::
  "((string \<times> string) list \<Rightarrow> string \<Rightarrow> string option \<times> string option) \<Rightarrow>
   fragments \<Rightarrow> segment \<Rightarrow> int \<Rightarrow> string \<Rightarrow> (string \<Rightarrow> string option) option \<Rightarrow>
   string list option \<Rightarrow> error + fragments" where
  "updateFragmentDict scan_tags fragments segment min_mapq cellbarcode readname_barcode cells =
     (case cell_barcode_of scan_tags segment cellbarcode readname_barcode of
        Inl e \<Rightarrow> Inl e
      | Inr cell_barcode \<Rightarrow>
          if not_in_cells cells cell_barcode then Inr fragments
          else if mapping_quality segment < min_mapq then Inr fragments
          else
            (case reference_end segment of
               None \<Rightarrow> Inr fragments
             | Some rend \<Rightarrow>
                 let qname = query_name segment in
                 if qname \<in> set (map fst fragments)
                 then Inr (dict_modify fragments qname (set_position segment rend))
                 else Inr (dict_modify
                        (dict_set fragments qname
                           \<lparr>f_chrom = reference_name segment, f_start = None,
                            f_end = None, f_cell = cell_barcode\<rparr>)
                        qname (set_position segment rend))))"

subsection \<open>filterFragmentDict (lines 197-203)\<close>

text \<open>Python truthiness of the four values: \<open>None\<close>, the empty string and 0 are falsy.\<close>

fun truthy_str :: "string option \<Rightarrow> bool" where
  "truthy_str None = False"
| "truthy_str (Some s) = (s \<noteq> [])"

fun truthy_int :: "int option \<Rightarrow> bool" where
  "truthy_int None = False"
| "truthy_int (Some i) = (i \<noteq> 0)"

definition all_values :: "fragment \<Rightarrow> bool" where
  "all_values f =
     (truthy_str (f_chrom f) \<and> truthy_int (f_start f) \<and> truthy_int (f_end f) \<and>
      truthy_str (f_cell f))"

fun filter_loop :: "string list \<Rightarrow> fragments \<Rightarrow> error + fragments" where
  "filter_loop [] fragments = Inr fragments"
| "filter_loop (key # allkey) fragments =
     (case map_of fragments key of
        None \<Rightarrow> Inl KeyError
      | Some f \<Rightarrow>
          filter_loop allkey (if \<not> all_values f then dict_del fragments key else fragments))"

definition filterFragmentDict :: "fragments \<Rightarrow> error + fragments" where
  "filterFragmentDict fragments = filter_loop (map fst fragments) fragments"

subsection \<open>Strings: str, join and split\<close>

text \<open>\<open>str\<close> of a Python \<open>int\<close>: decimal digits, a minus sign for a negative number.\<close>

definition digit_char :: "nat \<Rightarrow> char" where
  "digit_char d = ''0123456789'' ! (d mod 10)"

fun digits :: "nat \<Rightarrow> string" where
  "digits n = (if n < 10 then [digit_char n] else digits (n div 10) @ [digit_char (n mod 10)])"

declare digits.simps [simp del]

definition str_int :: "int \<Rightarrow> string" where
  "str_int i = (if i < 0 then CHR ''-'' # digits (nat (- i)) else digits (nat i))"

fun str_int_opt :: "int option \<Rightarrow> string" where
  "str_int_opt None = ''None''"
| "str_int_opt (Some i) = str_int i"

fun str_str_opt :: "string option \<Rightarrow> string" where
  "str_str_opt None = ''None''"
| "str_str_opt (Some s) = s"

text \<open>\<open>map(str, x)\<close> for the value list \<open>x\<close> of one fragment.\<close>

definition strs :: "fragment \<Rightarrow> string list" where
  "strs x = [str_str_opt (f_chrom x), str_int_opt (f_start x), str_int_opt (f_end x),
             str_str_opt (f_cell x)]"

fun join :: "string \<Rightarrow> string list \<Rightarrow> string" where
  "join sep [] = []"
| "join sep [x] = x"
| "join sep (x # y # ys) = x @ sep @ join sep (y # ys)"

text \<open>\<open>s.split(c)\<close> for a separator of one character: a new part at every occurrence.\<close>

fun split :: "char \<Rightarrow> string \<Rightarrow> string list" where
  "split c [] = [[]]"
| "split c (x # xs) =
     (if x = c then [] # split c xs
      else (case split c xs of [] \<Rightarrow> [[x]] | p # ps \<Rightarrow> (x # p) # ps))"

subsection \<open>Counter and id_lookup (lines 76-81)\<close>

text \<open>\<open>Counter(l)\<close>: the keys in the order of their first occurrence, with their counts.\<close>

definition counter_add :: "('a \<times> nat) list \<Rightarrow> 'a \<Rightarrow> ('a \<times> nat) list" where
  "counter_add c x = dict_set c x (case map_of c x of None \<Rightarrow> 1 | Some n \<Rightarrow> n + 1)"

definition Counter :: "'a list \<Rightarrow> ('a \<times> nat) list" where
  "Counter l = foldl counter_add [] l"

text \<open>
  Python fixes no iteration order for a \<open>set\<close> (for strings it changes with the hash
  seed). The order is a parameter: \<open>iter l\<close> is used when it lists every element of
  \<open>l\<close> exactly once, and the order of first occurrence otherwise, so that every value of
  the parameter stands for an iteration order and every iteration order is the value of
  some parameter.
\<close>

definition py_set :: "('a list \<Rightarrow> 'a list) \<Rightarrow> 'a list \<Rightarrow> 'a list" where
  "py_set iter l = (if distinct (iter l) \<and> set (iter l) = set l then iter l else remdups l)"

record hash_order =
  iter_str :: "string list \<Rightarrow> string list"
  iter_cell :: "string option list \<Rightarrow> string option list"
  iter_int :: "nat list \<Rightarrow> nat list"

text \<open>
  \<open>temp = defaultdict(lambda: len(temp)); idx = [temp[x] for x in l]\<close>: a key seen for
  the first time gets the number of keys seen before it.
\<close>

fun temp_ids :: "('a \<times> nat) list \<Rightarrow> 'a list \<Rightarrow> nat list" where
  "temp_ids temp [] = []"
| "temp_ids temp (x # xs) =
     (case map_of temp x of
        Some i \<Rightarrow> i # temp_ids temp xs
      | None \<Rightarrow> length temp # temp_ids (temp @ [(x, length temp)]) xs)"

definition id_lookup ::
  "('a list \<Rightarrow> 'a list) \<Rightarrow> (nat list \<Rightarrow> nat list) \<Rightarrow> 'a list \<Rightarrow> ('a \<times> nat) list" where
  "id_lookup iter_key iter_idx l =
     (let idx = temp_ids [] l
      in dict_of (zip (py_set iter_key l) (py_set iter_idx idx)))"

subsection \<open>The count matrix\<close>

text \<open>
  The COO triples are (data, row, col). \<open>tocsr()\<close> adds up the values given for one
  position, so the matrix is read through \<open>mat_get\<close>. The values are counts held as
  64-bit integers; they stay below the number of fragments in memory, so they do not
  wrap and are natural numbers here. The row and column numbers are values of the two
  lookup tables whose maxima give the shape, so the range check of the constructor
  does not fail.
\<close>

definition mat_get :: "(nat \<times> nat \<times> nat) list \<Rightarrow> nat \<Rightarrow> nat \<Rightarrow> nat" where
  "mat_get entries r c =
     sum_list (map fst (filter (\<lambda>e. fst (snd e) = r \<and> snd (snd e) = c) entries))"

definition mat_row :: "(nat \<times> nat \<times> nat) list \<Rightarrow> nat \<Rightarrow> nat \<Rightarrow> nat list" where
  "mat_row entries ncols r = map (mat_get entries r) [0..<ncols]"

text \<open>\<open>mat.sum(axis=1)\<close> for one row.\<close>

definition mat_sum_row :: "(nat \<times> nat \<times> nat) list \<Rightarrow> nat \<Rightarrow> nat \<Rightarrow> nat" where
  "mat_sum_row entries ncols r = sum_list (mat_row entries ncols r)"

text \<open>
  \<open>np.argmax(mat, axis=1)\<close> for one row. On a CSR matrix scipy takes the stored value
  that is largest, the first one by column when several are, and returns its column when
  the value is positive; a row without stored values gets 0. The stored values are
  positive counts, so this is the first index where the row has its maximum.
\<close>

definition argmax :: "nat list \<Rightarrow> nat" where
  "argmax xs = length (takeWhile (\<lambda>x. x \<noteq> fold max xs 0) xs)"

definition mat_argmax_row :: "(nat \<times> nat \<times> nat) list \<Rightarrow> nat \<Rightarrow> nat \<Rightarrow> nat" where
  "mat_argmax_row entries ncols r = argmax (mat_row entries ncols r)"

subsection \<open>collapseFragments (lines 26-73)\<close>

text \<open>Lines 42-47: one triple for every item of the counter.\<close>

fun entries_loop ::
  "(string \<times> nat) list \<Rightarrow> (string option \<times> nat) list \<Rightarrow> (string \<times> nat) list \<Rightarrow>
   error + (nat \<times> nat \<times> nat) list" where
  "entries_loop frag_id_lookup bc_id_lookup [] = Inr []"
| "entries_loop frag_id_lookup bc_id_lookup (i # items) =
     (let rowstr = take 3 (split CHR ''|'' (fst i)) in
      case drop 3 (split CHR ''|'' (fst i)) of
        [] \<Rightarrow> Inl IndexError
      | bcstr # _ \<Rightarrow>
          (case map_of frag_id_lookup (join ''|'' rowstr) of
             None \<Rightarrow> Inl KeyError
           | Some r \<Rightarrow>
               (case map_of bc_id_lookup (Some bcstr) of
                  None \<Rightarrow> Inl KeyError
                | Some c \<Rightarrow>
                    (case entries_loop frag_id_lookup bc_id_lookup items of
                       Inl e \<Rightarrow> Inl e
                     | Inr entries \<Rightarrow> Inr ((snd i, r, c) # entries)))))"

text \<open>\<open>max(d.values())\<close> raises ValueError on an empty dictionary.\<close>

definition max_values :: "('k \<times> nat) list \<Rightarrow> error + nat" where
  "max_values d = (case map snd d of [] \<Rightarrow> Inl ValueError | v # vs \<Rightarrow> Inr (fold max vs v))"

text \<open>\<open>[d[x] for x in xs]\<close>.\<close>

fun lookup_all :: "('k \<times> 'v) list \<Rightarrow> 'k list \<Rightarrow> error + 'v list" where
  "lookup_all d [] = Inr []"
| "lookup_all d (x # xs) =
     (case map_of d x of
        None \<Rightarrow> Inl KeyError
      | Some v \<Rightarrow> (case lookup_all d xs of Inl e \<Rightarrow> Inl e | Inr vs \<Rightarrow> Inr (v # vs)))"

text \<open>
  One output row is \<open>frag.split("|")\<close> followed by the barcode and the row sum: the
  coordinate parts stay strings. The three lists of lines 65-66 and 60 have one element
  per matrix row, so the loop of lines 68-72 pairs them up.
\<close>

type_synonym collapsed = "string list \<times> string option \<times> nat"

definition collapseFragments :: "hash_order \<Rightarrow> fragments \<Rightarrow> error + collapsed list" where
  "collapseFragments h fragments =
     (let fraglist = map snd fragments;
          fragcoords_with_bc = map (\<lambda>x. join ''|'' (strs x)) fraglist;
          fragcoords = map (\<lambda>x. join ''|'' (take 3 (strs x))) fraglist;
          cellbarcodes = map f_cell fraglist;
          counts = Counter fragcoords_with_bc;
          frag_id_lookup = id_lookup (iter_str h) (iter_int h) fragcoords;
          bc_id_lookup = id_lookup (iter_cell h) (iter_int h) cellbarcodes
      in case entries_loop frag_id_lookup bc_id_lookup counts of
           Inl e \<Rightarrow> Inl e
         | Inr entries \<Rightarrow>
        (case max_values frag_id_lookup of
           Inl e \<Rightarrow> Inl e
         | Inr max_row \<Rightarrow>
        (case max_values bc_id_lookup of
           Inl e \<Rightarrow> Inl e
         | Inr max_col \<Rightarrow>
        (let nrows = max_row + 1;
             ncols = max_col + 1;
             rowmax = map (mat_argmax_row entries ncols) [0..<nrows];
             rowsum = map (mat_sum_row entries ncols) [0..<nrows];
             frag_inverse = dict_of (zip (map snd frag_id_lookup) (map fst frag_id_lookup));
             bc_inverse = dict_of (zip (map snd bc_id_lookup) (map fst bc_id_lookup))
         in case lookup_all frag_inverse [0..<nrows] of
              Inl e \<Rightarrow> Inl e
            | Inr collapsed_frags \<Rightarrow>
           (case lookup_all bc_inverse rowmax of
              Inl e \<Rightarrow> Inl e
            | Inr collapsed_barcodes \<Rightarrow>
                Inr (map (\<lambda>(frag, bc, n). (split CHR ''|'' frag, bc, n))
                       (zip collapsed_frags (zip collapsed_barcodes rowsum))))))))"

subsection \<open>getFragments (lines 84-120)\<close>

text \<open>
  Lines 107-108: the module never imports \<open>re\<close>, so evaluating \<open>re.compile\<close> raises
  NameError whenever a pattern is given.
\<close>

fun re_compile :: "string option \<Rightarrow> error + (string \<Rightarrow> string option) option" where
  "re_compile None = Inr None"
| "re_compile (Some pattern) = Inl NameError"

text \<open>Lines 109-117: the reads are folded in one after the other; an exception ends the loop.\<close>

fun segments_loop ::
  "((string \<times> string) list \<Rightarrow> string \<Rightarrow> string option \<times> string option) \<Rightarrow>
   fragments \<Rightarrow> segment list \<Rightarrow> int \<Rightarrow> string \<Rightarrow> (string \<Rightarrow> string option) option \<Rightarrow>
   string list option \<Rightarrow> error + fragments" where
  "segments_loop scan_tags fragment_dict [] min_mapq cellbarcode readname_barcode cells =
     Inr fragment_dict"
| "segments_loop scan_tags fragment_dict (i # rest) min_mapq cellbarcode readname_barcode cells =
     (case updateFragmentDict scan_tags fragment_dict i min_mapq cellbarcode readname_barcode
             cells of
        Inl e \<Rightarrow> Inl e
      | Inr fragment_dict' \<Rightarrow>
          segments_loop scan_tags fragment_dict' rest min_mapq cellbarcode readname_barcode
            cells)"

text \<open>
  pysam is outside the source file. \<open>pysam.AlignmentFile(bam, "rb")\<close> of line 106 is a
  parameter: for a path it raises (a file that is missing or is not an alignment file)
  or gives the opened file. The opened file is given by its \<open>fetch\<close>: for a contig and
  two positions it raises (no index, unknown contig, truncated file) or yields the reads
  in file order. \<open>interval\<close> is a pair of contig name and length.
\<close>

type_synonym alignment_file = "string \<Rightarrow> nat \<Rightarrow> nat \<Rightarrow> error + segment list"

definition getFragments ::
  "hash_order \<Rightarrow> ((string \<times> string) list \<Rightarrow> string \<Rightarrow> string option \<times> string option) \<Rightarrow>
   (string \<Rightarrow> error + alignment_file) \<Rightarrow> string \<times> nat \<Rightarrow> string \<Rightarrow> int \<Rightarrow> string \<Rightarrow>
   string option \<Rightarrow> string list option \<Rightarrow> error + collapsed list" where
  "getFragments h scan_tags AlignmentFile interval bam min_mapq cellbarcode readname_barcode
     cells =
     (case AlignmentFile bam of
        Inl e \<Rightarrow> Inl e
      | Inr inputBam \<Rightarrow>
     (case re_compile readname_barcode of
        Inl e \<Rightarrow> Inl e
      | Inr compiled \<Rightarrow>
     (case inputBam (fst interval) 0 (snd interval) of
        Inl e \<Rightarrow> Inl e
      | Inr reads \<Rightarrow>
       (case segments_loop scan_tags [] reads min_mapq cellbarcode compiled cells of
          Inl e \<Rightarrow> Inl e
        | Inr fragment_dict \<Rightarrow>
         (case filterFragmentDict fragment_dict of
            Inl e \<Rightarrow> Inl e
          | Inr completed \<Rightarrow> collapseFragments h completed)))))"

subsection \<open>Notions of the specification\<close>

text \<open>
  A read is accepted by the Segment Filter when its barcode is extracted without an
  exception and none of the three guards of lines 157-170 returns early.
\<close>

definition accepted ::
  "((string \<times> string) list \<Rightarrow> string \<Rightarrow> string option \<times> string option) \<Rightarrow>
   segment \<Rightarrow> int \<Rightarrow> string \<Rightarrow> (string \<Rightarrow> string option) option \<Rightarrow>
   string list option \<Rightarrow> bool" where
  "accepted scan_tags segment min_mapq cellbarcode readname_barcode cells =
     (case cell_barcode_of scan_tags segment cellbarcode readname_barcode of
        Inl e \<Rightarrow> False
      | Inr cell_barcode \<Rightarrow>
          \<not> not_in_cells cells cell_barcode \<and> \<not> mapping_quality segment < min_mapq \<and>
          reference_end segment \<noteq> None)"

text \<open>
  An entry is incomplete when one of its four fields is null or falsy: \<open>None\<close>, the
  empty string, or the number zero.
\<close>

definition incomplete :: "fragment \<Rightarrow> bool" where
  "incomplete f =
     (f_chrom f = None \<or> f_chrom f = Some [] \<or> f_start f = None \<or> f_start f = Some 0 \<or>
      f_end f = None \<or> f_end f = Some 0 \<or> f_cell f = None \<or> f_cell f = Some [])"

text \<open>
  The coordinate of a fragment, the number of fragments at a coordinate, and the number
  of fragments at a coordinate that carry one barcode.
\<close>

definition coord :: "fragment \<Rightarrow> string option \<times> int option \<times> int option" where
  "coord f = (f_chrom f, f_start f, f_end f)"

definition reads_at :: "fragment list \<Rightarrow> string option \<times> int option \<times> int option \<Rightarrow> nat" where
  "reads_at frs co = length (filter (\<lambda>f. coord f = co) frs)"

definition occurrences ::
  "fragment list \<Rightarrow> string option \<times> int option \<times> int option \<Rightarrow> string option \<Rightarrow> nat" where
  "occurrences frs co b = length (filter (\<lambda>f. coord f = co \<and> f_cell f = b) frs)"

text \<open>The coordinate as the output row carries it: three strings.\<close>

definition coord_strs :: "string option \<times> int option \<times> int option \<Rightarrow> string list" where
  "coord_strs co = [str_str_opt (fst co), str_int_opt (fst (snd co)), str_int_opt (snd (snd co))]"

text \<open>Neither the chromosome name nor the barcode contains the separator.\<close>

definition bar_free :: "fragment \<Rightarrow> bool" where
  "bar_free f =
     (CHR ''|'' \<notin> set (str_str_opt (f_chrom f)) \<and> CHR ''|'' \<notin> set (str_str_opt (f_cell f)))"

definition well_formed :: "fragment \<Rightarrow> bool" where
  "well_formed f = (\<not> incomplete f \<and> bar_free f)"

text \<open>The sum of the counts of the counter items whose key satisfies \<open>P\<close>.\<close>

definition csum :: "('a \<Rightarrow> bool) \<Rightarrow> ('a \<times> nat) list \<Rightarrow> nat" where
  "csum P c = sum_list (map snd (filter (\<lambda>kv. P (fst kv)) c))"

subsection \<open>Example inputs\<close>

text \<open>
  Modelled from the spec: \<open>utils.scan_tags\<close> is not in the source file; the barcode is
  the value of the tag when the read has it and null when the tag is absent. Used for
  the concrete examples only.
\<close>

definition scan_tags_model ::
  "(string \<times> string) list \<Rightarrow> string \<Rightarrow> string option \<times> string option" where
  "scan_tags_model tgs cb = (map_of tgs cb, None)"

text \<open>
  The compiled pattern \<open>[ACGT]+\<close>: \<open>match\<close> takes the longest prefix of the name made
  of these four letters and fails when that prefix is empty.
\<close>

definition match_acgt :: "string \<Rightarrow> string option" where
  "match_acgt name =
     (case takeWhile (\<lambda>c. c \<in> set ''ACGT'') name of [] \<Rightarrow> None | g # gs \<Rightarrow> Some (g # gs))"

definition read_R1_fwd :: segment where
  "read_R1_fwd = \<lparr>query_name = ''R1'', tags = [(''CB'', ''AAAA'')], mapping_quality = 40,
     reference_name = Some ''chr1'', reference_start = 100, reference_end = Some 150,
     query_alignment_start = 2, is_reverse = False\<rparr>"

definition read_R1_rev :: segment where
  "read_R1_rev = \<lparr>query_name = ''R1'', tags = [(''CB'', ''AAAA'')], mapping_quality = 40,
     reference_name = Some ''chr1'', reference_start = 200, reference_end = Some 250,
     query_alignment_start = 0, is_reverse = True\<rparr>"

definition read_R1_rev_mapq20 :: segment where
  "read_R1_rev_mapq20 = read_R1_rev\<lparr>mapping_quality := 20\<rparr>"

definition frag_AAAA :: fragment where
  "frag_AAAA = \<lparr>f_chrom = Some ''chr1'', f_start = Some 106, f_end = Some 245,
     f_cell = Some ''AAAA''\<rparr>"

definition frag_BBBB :: fragment where
  "frag_BBBB = \<lparr>f_chrom = Some ''chr1'', f_start = Some 106, f_end = Some 245,
     f_cell = Some ''BBBB''\<rparr>"

definition frag_CCCC :: fragment where
  "frag_CCCC = \<lparr>f_chrom = Some ''chr1'', f_start = Some 300, f_end = Some 450,
     f_cell = Some ''CCCC''\<rparr>"

text \<open>A second forward read of pair R1, aligned elsewhere.\<close>

definition read_R1_fwd_other :: segment where
  "read_R1_fwd_other = read_R1_fwd\<lparr>reference_start := 300, reference_end := Some 350\<rparr>"

text \<open>
  Two fragments whose joined keys overlap: the key of the first with its barcode splits
  into the coordinate of the second.
\<close>

definition frag_a1 :: fragment where
  "frag_a1 = \<lparr>f_chrom = Some ''a|1'', f_start = Some 2, f_end = Some 3, f_cell = Some ''X''\<rparr>"

definition frag_a :: fragment where
  "frag_a = \<lparr>f_chrom = Some ''a'', f_start = Some 1, f_end = Some 2, f_cell = Some ''3''\<rparr>"

text \<open>A reference name in the style of older NCBI sequence headers.\<close>

definition frag_gi :: fragment where
  "frag_gi = \<lparr>f_chrom = Some ''gi|9626243|ref|NC_001416.1|'', f_start = Some 106,
     f_end = Some 245, f_cell = Some ''AAAA''\<rparr>"

text \<open>
  Two alignment files: a path at which there is no file, and a file that opens and holds
  the two reads of pair R1 on every contig asked for.
\<close>

definition missing_bam :: "string \<Rightarrow> error + alignment_file" where
  "missing_bam path = Inl FileNotFoundError"

definition fetch_R1 :: alignment_file where
  "fetch_R1 contig start stop = Inr [read_R1_fwd, read_R1_rev]"

definition bam_R1 :: "string \<Rightarrow> error + alignment_file" where
  "bam_R1 path = Inr fetch_R1"

text \<open>The iteration order in which every set lists its elements as first inserted.\<close>

definition first_seen :: hash_order where
  "first_seen = \<lparr>iter_str = remdups, iter_cell = remdups, iter_int = remdups\<rparr>"

section \<open>Properties of the assembler and the completeness filter\<close>

subsection \<open>Dictionary operations\<close>

lemma map_of_dict_modify:
  "map_of (dict_modify d k g) k' =
     (if k' = k then map_option g (map_of d k) else map_of d k')"
  by (induction d) auto

lemma map_fst_dict_modify: "map fst (dict_modify d k g) = map fst d"
  by (induction d) auto

lemma keys_dict_modify: "fst ` set (dict_modify d k g) = fst ` set d"
  using map_fst_dict_modify[of d k g] by (metis set_map)

lemma map_of_dict_set: "map_of (dict_set d k v) k' = (if k' = k then Some v else map_of d k')"
  by (induction d) auto

lemma keys_dict_set: "fst ` set (dict_set d k v) = insert k (fst ` set d)"
proof (induction d)
  case Nil
  show ?case by simp
next
  case (Cons a d)
  show ?case
  proof (cases "fst a = k")
    case True
    then show ?thesis by (cases a) auto
  next
    case False
    then have "dict_set (a # d) k v = a # dict_set d k v" by (cases a) auto
    then show ?thesis using Cons.IH by auto
  qed
qed

lemma dict_set_new: "k \<notin> fst ` set d \<Longrightarrow> dict_set d k v = d @ [(k, v)]"
  by (induction d) auto

lemma dict_modify_idem:
  "(\<And>v. g (g v) = g v) \<Longrightarrow> dict_modify (dict_modify d k g) k g = dict_modify d k g"
  by (induction d) auto

subsection \<open>One step of the assembler\<close>

lemma set_position_idem: "set_position s r (set_position s r f) = set_position s r f"
  by (simp add: set_position_def Let_def)

lemma accepted_update:
  assumes "accepted scan_tags segment min_mapq cellbarcode readname_barcode cells"
    and "reference_end segment = Some rend"
  shows "\<exists>b. cell_barcode_of scan_tags segment cellbarcode readname_barcode = Inr b \<and>
     updateFragmentDict scan_tags fragments segment min_mapq cellbarcode readname_barcode cells =
     Inr (if query_name segment \<in> fst ` set fragments
          then dict_modify fragments (query_name segment) (set_position segment rend)
          else dict_modify (dict_set fragments (query_name segment)
                 \<lparr>f_chrom = reference_name segment, f_start = None, f_end = None, f_cell = b\<rparr>)
                 (query_name segment) (set_position segment rend))"
  using assms
  by (auto simp: accepted_def updateFragmentDict_def Let_def split: sum.splits)

lemma not_accepted_update:
  assumes "\<not> accepted scan_tags segment min_mapq cellbarcode readname_barcode cells"
    and "updateFragmentDict scan_tags fragments segment min_mapq cellbarcode readname_barcode
           cells = Inr d"
  shows "d = fragments"
  using assms
  by (auto simp: accepted_def updateFragmentDict_def Let_def
           split: sum.splits if_splits option.splits)

subsection \<open>The completeness filter\<close>

lemma truthy_str_iff: "truthy_str x \<longleftrightarrow> x \<noteq> None \<and> x \<noteq> Some []"
  by (cases x) auto

lemma truthy_int_iff: "truthy_int x \<longleftrightarrow> x \<noteq> None \<and> x \<noteq> Some 0"
  by (cases x) auto

lemma all_values_incomplete: "all_values f \<longleftrightarrow> \<not> incomplete f"
  by (auto simp: all_values_def incomplete_def truthy_str_iff truthy_int_iff)

lemma map_of_distinct_snd:
  "distinct (map fst d) \<Longrightarrow> (k, v) \<in> set d \<Longrightarrow> map_of d k = Some v"
  by simp

lemma filter_loop_eq:
  "distinct keys \<Longrightarrow> distinct (map fst d) \<Longrightarrow> set keys \<subseteq> fst ` set d \<Longrightarrow>
   filter_loop keys d = Inr (filter (\<lambda>kv. fst kv \<in> set keys \<longrightarrow> all_values (snd kv)) d)"
proof (induction keys arbitrary: d)
  case Nil
  then show ?case by simp
next
  case (Cons key keys)
  from Cons.prems obtain f where f: "map_of d key = Some f"
    by (cases "map_of d key") (auto simp: map_of_eq_None_iff)
  have uniq: "\<And>kv. kv \<in> set d \<Longrightarrow> fst kv = key \<Longrightarrow> snd kv = f"
    using f Cons.prems(2) by (metis map_of_distinct_snd option.inject prod.collapse)
  show ?case
  proof (cases "all_values f")
    case True
    have "filter_loop (key # keys) d = filter_loop keys d"
      using f True by simp
    also have "\<dots> = Inr (filter (\<lambda>kv. fst kv \<in> set keys \<longrightarrow> all_values (snd kv)) d)"
      using Cons.prems by (intro Cons.IH) auto
    also have "filter (\<lambda>kv. fst kv \<in> set keys \<longrightarrow> all_values (snd kv)) d =
               filter (\<lambda>kv. fst kv \<in> set (key # keys) \<longrightarrow> all_values (snd kv)) d"
      using True uniq by (intro filter_cong) auto
    finally show ?thesis .
  next
    case False
    have d1: "distinct (map fst (dict_del d key))"
      using Cons.prems(2) by (simp add: dict_del_def distinct_map_filter)
    have d2: "set keys \<subseteq> fst ` set (dict_del d key)"
      using Cons.prems(1,3) by (force simp: dict_del_def)
    have "filter_loop (key # keys) d = filter_loop keys (dict_del d key)"
      using f False by simp
    also have "\<dots> = Inr (filter (\<lambda>kv. fst kv \<in> set keys \<longrightarrow> all_values (snd kv))
                          (dict_del d key))"
      using Cons.prems(1) d1 d2 by (intro Cons.IH) auto
    also have "filter (\<lambda>kv. fst kv \<in> set keys \<longrightarrow> all_values (snd kv)) (dict_del d key) =
               filter (\<lambda>kv. fst kv \<in> set (key # keys) \<longrightarrow> all_values (snd kv)) d"
      unfolding dict_del_def filter_filter
      using False uniq by (intro filter_cong) auto
    finally show ?thesis .
  qed
qed

lemma filterFragmentDict_eq:
  assumes "distinct (map fst fragments)"
  shows "filterFragmentDict fragments = Inr (filter (\<lambda>kv. all_values (snd kv)) fragments)"
proof -
  have "filterFragmentDict fragments =
        Inr (filter (\<lambda>kv. fst kv \<in> set (map fst fragments) \<longrightarrow> all_values (snd kv))
               fragments)"
    unfolding filterFragmentDict_def using assms by (intro filter_loop_eq) auto
  also have "filter (\<lambda>kv. fst kv \<in> set (map fst fragments) \<longrightarrow> all_values (snd kv))
               fragments =
             filter (\<lambda>kv. all_values (snd kv)) fragments"
    by (intro filter_cong) auto
  finally show ?thesis .
qed

lemma single_read_incomplete:
  assumes "updateFragmentDict scan_tags [] mate min_mapq cellbarcode readname_barcode cells = Inr d"
  shows "filterFragmentDict d = Inr []"
proof (cases "accepted scan_tags mate min_mapq cellbarcode readname_barcode cells")
  case False
  from not_accepted_update[OF False assms] show ?thesis
    by (simp add: filterFragmentDict_def)
next
  case True
  then obtain rend where rend: "reference_end mate = Some rend"
    by (auto simp: accepted_def split: sum.splits)
  from accepted_update[OF True rend, of "[]"] assms
  obtain b where d: "d = [(query_name mate, set_position mate rend
        \<lparr>f_chrom = reference_name mate, f_start = None, f_end = None, f_cell = b\<rparr>)]"
    by auto
  show ?thesis
    by (simp add: d filterFragmentDict_def all_values_def set_position_def Let_def dict_del_def)
qed

section \<open>Properties of the deduplicator\<close>

subsection \<open>Decimal strings\<close>

lemma digit_char_cases:
  "d < 10 \<Longrightarrow> d = 0 \<or> d = 1 \<or> d = 2 \<or> d = 3 \<or> d = 4 \<or> d = 5 \<or> d = 6 \<or> d = 7 \<or> d = 8 \<or> d = (9::nat)"
  by arith

lemma digit_char_in: "digit_char d \<in> set ''0123456789''"
proof -
  have "d mod 10 < 10" by simp
  from digit_char_cases[OF this] show ?thesis
    unfolding digit_char_def by (elim disjE) simp_all
qed

lemma digit_char_inj:
  assumes "d < 10" "e < 10" "digit_char d = digit_char e"
  shows "d = e"
  using digit_char_cases[OF assms(1)] digit_char_cases[OF assms(2)] assms(3)
  unfolding digit_char_def by (elim disjE) simp_all

lemma digits_chars: "set (digits n) \<subseteq> set ''0123456789''"
proof (induction n rule: digits.induct)
  case (1 n)
  show ?case
  proof (cases "n < 10")
    case True
    then show ?thesis using digit_char_in[of n] by (subst digits.simps) simp
  next
    case False
    then show ?thesis using 1 digit_char_in[of "n mod 10"] by (subst digits.simps) simp
  qed
qed

lemma digits_nonempty: "digits n \<noteq> []"
  by (subst digits.simps) simp

lemma digits_inj: "digits n = digits m \<Longrightarrow> n = m"
proof (induction n arbitrary: m rule: digits.induct)
  case (1 n)
  show ?case
  proof (cases "n < 10")
    case n: True
    show ?thesis
    proof (cases "m < 10")
      case True
      with n 1(2) have "digit_char n = digit_char m"
        by (simp add: digits.simps[of n] digits.simps[of m])
      then show ?thesis using n True by (rule digit_char_inj[rotated 2])
    next
      case False
      with n 1(2) have "[digit_char n] = digits (m div 10) @ [digit_char (m mod 10)]"
        by (simp add: digits.simps[of n] digits.simps[of m])
      then show ?thesis using digits_nonempty[of "m div 10"] by simp
    qed
  next
    case n: False
    show ?thesis
    proof (cases "m < 10")
      case True
      with n 1(2) have "digits (n div 10) @ [digit_char (n mod 10)] = [digit_char m]"
        by (simp add: digits.simps[of n] digits.simps[of m])
      then show ?thesis using digits_nonempty[of "n div 10"] by simp
    next
      case False
      with n 1(2) have "digits (n div 10) @ [digit_char (n mod 10)] =
                        digits (m div 10) @ [digit_char (m mod 10)]"
        by (simp add: digits.simps[of n] digits.simps[of m])
      then have a: "digits (n div 10) = digits (m div 10)"
        and b: "digit_char (n mod 10) = digit_char (m mod 10)" by simp_all
      from 1(1)[OF n a] have "n div 10 = m div 10" .
      moreover from b have "n mod 10 = m mod 10" by (intro digit_char_inj) simp_all
      ultimately show ?thesis by (metis div_mult_mod_eq)
    qed
  qed
qed

lemma str_int_inj: "str_int i = str_int j \<Longrightarrow> i = j"
proof -
  assume eq: "str_int i = str_int j"
  have nm: "\<And>n m. CHR ''-'' # digits n \<noteq> digits m"
  proof
    fix n m assume "CHR ''-'' # digits n = digits m"
    then have "CHR ''-'' \<in> set (digits m)" by (metis list.set_intros(1))
    then show False using digits_chars[of m] by auto
  qed
  show ?thesis
  proof (cases "i < 0")
    case i: True
    show ?thesis
    proof (cases "j < 0")
      case True
      with i eq have "nat (- i) = nat (- j)" by (simp add: str_int_def digits_inj)
      with i True show ?thesis by simp
    next
      case False
      with i eq nm show ?thesis by (simp add: str_int_def)
    qed
  next
    case i: False
    show ?thesis
    proof (cases "j < 0")
      case True
      with i eq nm[of "nat (- j)" "nat i"] show ?thesis by (simp add: str_int_def)
    next
      case False
      with i eq have "nat i = nat j" by (simp add: str_int_def digits_inj)
      with i False show ?thesis by simp
    qed
  qed
qed

lemma str_int_no_bar: "CHR ''|'' \<notin> set (str_int i)"
  using digits_chars[of "nat i"] digits_chars[of "nat (- i)"]
  by (auto simp: str_int_def)

subsection \<open>split and join\<close>

lemma split_nonempty: "split c s \<noteq> []"
  by (induction s) (auto split: list.splits)

lemma split_no_sep: "c \<notin> set x \<Longrightarrow> split c x = [x]"
  by (induction x) auto

lemma split_append_sep: "c \<notin> set x \<Longrightarrow> split c (x @ c # rest) = x # split c rest"
  by (induction x) (auto split: list.splits)

lemma split_join3:
  assumes "c \<notin> set x" "c \<notin> set y" "c \<notin> set z"
  shows "split c (join [c] [x, y, z]) = [x, y, z]"
  using assms by (simp add: split_append_sep split_no_sep)

lemma split_join4:
  assumes "c \<notin> set x" "c \<notin> set y" "c \<notin> set z" "c \<notin> set w"
  shows "split c (join [c] [x, y, z, w]) = [x, y, z, w]"
  using assms by (simp add: split_append_sep split_no_sep)

subsection \<open>Counter\<close>

lemma csum_counter_add: "csum P (counter_add c x) = csum P c + (if P x then 1 else 0)"
proof (induction c)
  case Nil
  show ?case by (simp add: csum_def counter_add_def)
next
  case (Cons a c)
  show ?case
  proof (cases "fst a = x")
    case True
    then show ?thesis by (cases a) (simp add: csum_def counter_add_def)
  next
    case False
    then have "counter_add (a # c) x = a # counter_add c x"
      by (cases a) (simp add: counter_add_def)
    then show ?thesis using Cons.IH by (simp add: csum_def)
  qed
qed

lemma csum_foldl: "csum P (foldl counter_add c l) = csum P c + length (filter P l)"
  by (induction l arbitrary: c) (simp_all add: csum_counter_add)

lemma csum_Counter: "csum P (Counter l) = length (filter P l)"
  by (simp add: Counter_def csum_foldl) (simp add: csum_def)

lemma keys_counter_add: "fst ` set (counter_add c x) = insert x (fst ` set c)"
  by (simp add: counter_add_def keys_dict_set)

lemma keys_foldl_counter: "fst ` set (foldl counter_add c l) = fst ` set c \<union> set l"
  by (induction l arbitrary: c) (auto simp: keys_counter_add)

lemma keys_Counter: "fst ` set (Counter l) = set l"
  by (simp add: Counter_def keys_foldl_counter)

subsection \<open>Set iteration and id_lookup\<close>

lemma py_set_distinct: "distinct (py_set iter l)"
  by (simp add: py_set_def)

lemma py_set_set: "set (py_set iter l) = set l"
  by (simp add: py_set_def)

lemma py_set_Nil: "py_set iter [] = []"
  using py_set_set[of iter "[]"] by simp

lemma temp_ids_set_gen:
  assumes "distinct (map fst temp)" "map snd temp = [0..<length temp]"
  shows "set (temp_ids temp l) \<union> {0..<length temp} =
         {0..<length temp + card (set l - fst ` set temp)}"
  using assms
proof (induction l arbitrary: temp)
  case Nil
  show ?case by simp
next
  case (Cons x xs)
  show ?case
  proof (cases "map_of temp x")
    case (Some i)
    then have "(x, i) \<in> set temp" by (rule map_of_SomeD)
    then have xin: "x \<in> fst ` set temp" and "i \<in> set (map snd temp)" by force+
    then have i: "i < length temp" using Cons.prems(2) by simp
    have "set (x # xs) - fst ` set temp = set xs - fst ` set temp" using xin by auto
    with Cons.IH[OF Cons.prems] Some i show ?thesis by auto
  next
    case None
    then have xnot: "x \<notin> fst ` set temp" by (simp add: map_of_eq_None_iff)
    let ?t = "temp @ [(x, length temp)]"
    have d: "distinct (map fst ?t)" using Cons.prems(1) xnot by simp
    have s: "map snd ?t = [0..<length ?t]" using Cons.prems(2) by simp
    have c: "card (set (x # xs) - fst ` set temp) = Suc (card (set xs - fst ` set ?t))"
    proof -
      have "set (x # xs) - fst ` set temp = insert x (set xs - fst ` set ?t)"
        using xnot by auto
      moreover have "x \<notin> set xs - fst ` set ?t" by simp
      ultimately show ?thesis by simp
    qed
    from Cons.IH[OF d s] have
      "set (temp_ids ?t xs) \<union> {0..<Suc (length temp)} =
       {0..<Suc (length temp) + card (set xs - fst ` set ?t)}" by simp
    moreover have "insert (length temp) {0..<length temp} = {0..<Suc (length temp)}" by auto
    ultimately show ?thesis using None c by auto
  qed
qed

lemma temp_ids_set: "set (temp_ids [] l) = {0..<card (set l)}"
  using temp_ids_set_gen[of "[]" l] by simp

lemma foldl_dict_set_distinct:
  "distinct (map fst (d @ ps)) \<Longrightarrow>
   foldl (\<lambda>d kv. dict_set d (fst kv) (snd kv)) d ps = d @ ps"
proof (induction ps arbitrary: d)
  case Nil
  show ?case by simp
next
  case (Cons p ps)
  from Cons.prems have "fst p \<notin> fst ` set d" by auto
  then have "dict_set d (fst p) (snd p) = d @ [p]" by (simp add: dict_set_new)
  moreover have "distinct (map fst ((d @ [p]) @ ps))" using Cons.prems by simp
  ultimately show ?case using Cons.IH[of "d @ [p]"] by simp
qed

lemma dict_of_distinct: "distinct (map fst ps) \<Longrightarrow> dict_of ps = ps"
  using foldl_dict_set_distinct[of "[]" ps] by (simp add: dict_of_def)

text \<open>The shape of a lookup table: distinct keys paired with distinct numbers.\<close>

lemma id_lookup_shape:
  "\<exists>K I. id_lookup iter_key iter_idx l = zip K I \<and> length K = length I \<and> distinct K \<and>
         distinct I \<and> set K = set l \<and> set I = {0..<card (set l)}"
proof -
  let ?K = "py_set iter_key l" and ?I = "py_set iter_idx (temp_ids [] l)"
  have dK: "distinct ?K" and sK: "set ?K = set l"
    by (simp_all add: py_set_distinct py_set_set)
  have dI: "distinct ?I" and sI: "set ?I = {0..<card (set l)}"
    by (simp_all add: py_set_distinct py_set_set temp_ids_set)
  have "length ?K = card (set l)" using dK sK by (metis distinct_card)
  moreover have "length ?I = card (set l)" using dI sI by (metis distinct_card card_atLeastLessThan diff_zero)
  ultimately have len: "length ?K = length ?I" by simp
  then have "distinct (map fst (zip ?K ?I))" using dK by simp
  then have "id_lookup iter_key iter_idx l = zip ?K ?I"
    by (simp add: id_lookup_def dict_of_distinct)
  with len dK dI sK sI show ?thesis by blast
qed

lemma max_values_range:
  assumes "set (map snd d) = {0..<n}" "0 < n"
  shows "max_values d = Inr (n - 1)"
proof -
  from assms obtain v vs where vs: "map snd d = v # vs" by (cases "map snd d") auto
  have "fold max vs v = Max (set (v # vs))" by (rule Max.set_eq_fold[symmetric])
  also have "\<dots> = Max {0..<n}" using assms(1) vs by simp
  also have "\<dots> = n - 1"
  proof (rule Max_eqI)
    show "finite {0..<n}" by simp
    show "\<And>y. y \<in> {0..<n} \<Longrightarrow> y \<le> n - 1" by auto
    show "n - 1 \<in> {0..<n}" using assms(2) by auto
  qed
  finally show ?thesis by (simp add: max_values_def vs)
qed

lemma id_lookup_bij:
  assumes "l \<noteq> []"
  shows "\<exists>ido keyo.
    (\<forall>k \<in> set l.
       map_of (id_lookup iter_key iter_idx l) k = Some (ido k) \<and> ido k < card (set l) \<and>
       keyo (ido k) = k) \<and>
    (\<forall>r < card (set l).
       map_of (dict_of (zip (map snd (id_lookup iter_key iter_idx l))
                            (map fst (id_lookup iter_key iter_idx l)))) r = Some (keyo r) \<and>
       keyo r \<in> set l \<and> ido (keyo r) = r) \<and>
    max_values (id_lookup iter_key iter_idx l) = Inr (card (set l) - 1)"
proof -
  let ?L = "id_lookup iter_key iter_idx l"
  from id_lookup_shape[of iter_key iter_idx l] obtain K I where
    L: "?L = zip K I" and len: "length K = length I" and dK: "distinct K" and dI: "distinct I"
    and sK: "set K = set l" and sI: "set I = {0..<card (set l)}" by blast
  have fstL: "map fst ?L = K" and sndL: "map snd ?L = I" using L len by simp_all
  have inv: "dict_of (zip (map snd ?L) (map fst ?L)) = zip I K"
    using dI len by (simp add: fstL sndL dict_of_distinct)
  define ido where "ido k = the (map_of (zip K I) k)" for k
  define keyo where "keyo r = the (map_of (zip I K) r)" for r
  have fwd: "\<And>k i. (k, i) \<in> set (zip K I) \<Longrightarrow> map_of (zip K I) k = Some i"
    using dK len by simp
  have bwd: "\<And>k i. (k, i) \<in> set (zip K I) \<Longrightarrow> map_of (zip I K) i = Some k"
  proof -
    fix k i assume "(k, i) \<in> set (zip K I)"
    then have "(i, k) \<in> set (zip I K)" by (metis in_set_zip fst_conv snd_conv)
    then show "map_of (zip I K) i = Some k" using dI len by simp
  qed
  have pos: "0 < card (set l)" using assms by (simp add: card_gt_0_iff)
  have a: "\<forall>k \<in> set l. map_of ?L k = Some (ido k) \<and> ido k < card (set l) \<and> keyo (ido k) = k"
  proof
    fix k assume "k \<in> set l"
    then have "k \<in> set K" using sK by simp
    then obtain i where ki: "(k, i) \<in> set (zip K I)"
      using len by (metis in_set_impl_in_set_zip1)
    then have "i \<in> set I" by (rule set_zip_rightD)
    then have "i < card (set l)" using sI by simp
    then show "map_of ?L k = Some (ido k) \<and> ido k < card (set l) \<and> keyo (ido k) = k"
      using fwd[OF ki] bwd[OF ki] by (simp add: L ido_def keyo_def)
  qed
  have b: "\<forall>r < card (set l). map_of (dict_of (zip (map snd ?L) (map fst ?L))) r = Some (keyo r) \<and>
       keyo r \<in> set l \<and> ido (keyo r) = r"
  proof (intro allI impI)
    fix r assume "r < card (set l)"
    then have "r \<in> set I" using sI by simp
    then obtain k where "(r, k) \<in> set (zip I K)"
      using len by (metis in_set_impl_in_set_zip1)
    then have ki: "(k, r) \<in> set (zip K I)" by (metis in_set_zip fst_conv snd_conv)
    then have "k \<in> set l" using sK by (metis set_zip_leftD)
    then show "map_of (dict_of (zip (map snd ?L) (map fst ?L))) r = Some (keyo r) \<and>
       keyo r \<in> set l \<and> ido (keyo r) = r"
      using fwd[OF ki] bwd[OF ki] by (simp add: inv ido_def keyo_def)
  qed
  have c: "max_values ?L = Inr (card (set l) - 1)"
    using max_values_range[of ?L "card (set l)"] sndL sI pos by simp
  from a b c show ?thesis by blast
qed

subsection \<open>argmax\<close>

lemma fold_max_0: "xs \<noteq> [] \<Longrightarrow> fold max xs (0::nat) = Max (set xs)"
proof -
  assume ne: "xs \<noteq> []"
  have "fold max xs 0 = Max (set (0 # xs))" by (rule Max.set_eq_fold[symmetric])
  also have "\<dots> = max 0 (Max (set xs))" using ne by simp
  finally show ?thesis by simp
qed

lemma takeWhile_stops: "x \<in> set xs \<Longrightarrow> \<not> P x \<Longrightarrow> length (takeWhile P xs) < length xs"
  by (induction xs) auto

lemma argmax_max:
  assumes "xs \<noteq> []"
  shows "argmax xs < length xs \<and> (\<forall>i<length xs. xs ! i \<le> xs ! argmax xs)"
proof -
  let ?m = "Max (set xs)"
  have m: "fold max xs 0 = ?m" using assms by (rule fold_max_0)
  have min: "?m \<in> set xs" using assms by (intro Max_in) simp_all
  have lt: "length (takeWhile (\<lambda>x. x \<noteq> ?m) xs) < length xs"
    using min by (intro takeWhile_stops[of ?m]) simp_all
  from nth_length_takeWhile[OF lt] have at: "xs ! length (takeWhile (\<lambda>x. x \<noteq> ?m) xs) = ?m"
    by simp
  show ?thesis using lt at by (simp add: argmax_def m)
qed

subsection \<open>Conservation of the counts, on every input\<close>

lemma entries_loop_shape:
  "entries_loop fl bl cs = Inr es \<Longrightarrow>
   map fst es = map snd cs \<and>
   (\<forall>e \<in> set es. fst (snd e) \<in> snd ` set fl \<and> snd (snd e) \<in> snd ` set bl)"
proof (induction cs arbitrary: es)
  case Nil
  then show ?case by simp
next
  case (Cons i cs)
  from Cons.prems obtain r c es' where
    r: "map_of fl (join ''|'' (take 3 (split CHR ''|'' (fst i)))) = Some r"
    and c: "\<exists>k. map_of bl k = Some c"
    and es': "entries_loop fl bl cs = Inr es'" and es: "es = (snd i, r, c) # es'"
    by (auto simp: Let_def split: list.splits option.splits sum.splits)
  from r have "r \<in> snd ` set fl" by (metis map_of_SomeD snd_conv image_eqI)
  moreover from c have "c \<in> snd ` set bl" by (metis map_of_SomeD snd_conv image_eqI)
  ultimately show ?case using Cons.IH[OF es'] es by simp
qed

lemma max_values_bound:
  assumes "max_values d = Inr mx" "v \<in> snd ` set d"
  shows "v \<le> mx"
proof -
  from assms(1) obtain w ws where ws: "map snd d = w # ws" and mx: "mx = fold max ws w"
    by (auto simp: max_values_def split: list.splits)
  have "mx = Max (set (map snd d))" unfolding mx ws by (rule Max.set_eq_fold[symmetric])
  moreover have "v \<in> set (map snd d)" using assms(2) by simp
  ultimately show ?thesis by simp
qed

lemma sum_list_indicator:
  "a < n \<Longrightarrow> sum_list (map (\<lambda>c. if c = a then (v::nat) else 0) [0..<n]) = v"
  by (simp add: interv_sum_list_conv_sum_set_nat)

lemma mat_get_Cons:
  "mat_get (e # es) r c =
     (if fst (snd e) = r \<and> snd (snd e) = c then fst e else 0) + mat_get es r c"
  by (simp add: mat_get_def)

lemma mat_sum_row_Cons:
  assumes "snd (snd e) < ncols"
  shows "mat_sum_row (e # es) ncols r =
           (if fst (snd e) = r then fst e else 0) + mat_sum_row es ncols r"
proof -
  have "mat_sum_row (e # es) ncols r =
        sum_list (map (\<lambda>c. (if fst (snd e) = r \<and> snd (snd e) = c then fst e else 0)) [0..<ncols]) +
        mat_sum_row es ncols r"
  proof -
    have "mat_get (e # es) r =
          (\<lambda>c. (if fst (snd e) = r \<and> snd (snd e) = c then fst e else 0) + mat_get es r c)"
      by (rule ext) (rule mat_get_Cons)
    then show ?thesis
      unfolding mat_sum_row_def mat_row_def by (simp only: sum_list_addf)
  qed
  also have "sum_list (map (\<lambda>c. (if fst (snd e) = r \<and> snd (snd e) = c then fst e else 0)) [0..<ncols]) =
        (if fst (snd e) = r then fst e else 0)"
  proof (cases "fst (snd e) = r")
    case True
    have "(\<lambda>c. if fst (snd e) = r \<and> snd (snd e) = c then fst e else 0) =
          (\<lambda>c. if c = snd (snd e) then fst e else 0)" using True by auto
    then show ?thesis using True sum_list_indicator[OF assms, of "fst e"] by simp
  next
    case False
    then show ?thesis by simp
  qed
  finally show ?thesis .
qed

lemma mat_total:
  assumes "\<forall>e \<in> set es. fst (snd e) < nrows \<and> snd (snd e) < ncols"
  shows "sum_list (map (mat_sum_row es ncols) [0..<nrows]) = sum_list (map fst es)"
  using assms
proof (induction es)
  case Nil
  show ?case by (simp add: mat_sum_row_def mat_row_def mat_get_def)
next
  case (Cons e es)
  then have r: "fst (snd e) < nrows" and c: "snd (snd e) < ncols" by simp_all
  have "sum_list (map (mat_sum_row (e # es) ncols) [0..<nrows]) =
        sum_list (map (\<lambda>r. if r = fst (snd e) then fst e else 0) [0..<nrows]) +
        sum_list (map (mat_sum_row es ncols) [0..<nrows])"
  proof -
    have "mat_sum_row (e # es) ncols =
          (\<lambda>r. (if r = fst (snd e) then fst e else 0) + mat_sum_row es ncols r)"
      by (rule ext) (auto simp: mat_sum_row_Cons[OF c])
    then show ?thesis by (simp only: sum_list_addf)
  qed
  moreover have "sum_list (map (mat_sum_row es ncols) [0..<nrows]) = sum_list (map fst es)"
    using Cons by simp
  ultimately show ?case using sum_list_indicator[OF r, of "fst e"] by simp
qed

lemma lookup_all_length: "lookup_all d xs = Inr vs \<Longrightarrow> length vs = length xs"
  by (induction xs arbitrary: vs) (auto split: option.splits sum.splits)

lemma counts_zip3:
  assumes "length cf = length rs" "length cb = length rs"
  shows "map (\<lambda>x. snd (snd x)) (map (\<lambda>(frag, bc, n). (split CHR ''|'' frag, bc, n)) (zip cf (zip cb rs))) = rs"
proof -
  have "map (\<lambda>x. snd (snd x)) (map (\<lambda>(frag, bc, n). (split CHR ''|'' frag, bc, n)) (zip cf (zip cb rs)))
        = map (snd \<circ> snd) (zip cf (zip cb rs))"
    by (simp add: o_def case_prod_beta)
  also have "\<dots> = map snd (map snd (zip cf (zip cb rs)))" by simp
  also have "\<dots> = rs" using assms by simp
  finally show ?thesis .
qed

lemma sum_Counter: "sum_list (map snd (Counter l)) = length l"
  using csum_Counter[of "\<lambda>_. True" l] by (simp add: csum_def)

lemma collapseFragments_conserves:
  assumes "collapseFragments h fragments = Inr out"
  shows "sum_list (map (\<lambda>x. snd (snd x)) out) = length fragments"
proof -
  let ?frs = "map snd fragments"
  let ?counts = "Counter (map (\<lambda>x. join ''|'' (strs x)) ?frs)"
  let ?fl = "id_lookup (iter_str h) (iter_int h) (map (\<lambda>x. join ''|'' (take 3 (strs x))) ?frs)"
  let ?bl = "id_lookup (iter_cell h) (iter_int h) (map f_cell ?frs)"
  from assms obtain es mr mc cf cb where
    es: "entries_loop ?fl ?bl ?counts = Inr es"
    and mr: "max_values ?fl = Inr mr" and mc: "max_values ?bl = Inr mc"
    and cf: "lookup_all (dict_of (zip (map snd ?fl) (map fst ?fl))) [0..<mr + 1] = Inr cf"
    and cb: "lookup_all (dict_of (zip (map snd ?bl) (map fst ?bl)))
               (map (mat_argmax_row es (mc + 1)) [0..<mr + 1]) = Inr cb"
    and out: "out = map (\<lambda>(frag, bc, n). (split CHR ''|'' frag, bc, n))
                 (zip cf (zip cb (map (mat_sum_row es (mc + 1)) [0..<mr + 1])))"
    by (auto simp: collapseFragments_def Let_def split: sum.splits)
  have l1: "length cf = length (map (mat_sum_row es (mc + 1)) [0..<mr + 1])"
    using lookup_all_length[OF cf] by simp
  have l2: "length cb = length (map (mat_sum_row es (mc + 1)) [0..<mr + 1])"
    using lookup_all_length[OF cb] by simp
  have "map (\<lambda>x. snd (snd x)) out = map (mat_sum_row es (mc + 1)) [0..<mr + 1]"
    unfolding out by (rule counts_zip3[OF l1 l2])
  moreover have "\<forall>e \<in> set es. fst (snd e) < mr + 1 \<and> snd (snd e) < mc + 1"
    using entries_loop_shape[OF es] max_values_bound[OF mr] max_values_bound[OF mc]
    by (auto simp: less_Suc_eq_le)
  ultimately have "sum_list (map (\<lambda>x. snd (snd x)) out) = sum_list (map fst es)"
    using mat_total[of es "mr + 1" "mc + 1"] by (simp only:)
  also have "\<dots> = sum_list (map snd ?counts)" using entries_loop_shape[OF es] by simp
  also have "\<dots> = length fragments" by (simp add: sum_Counter)
  finally show ?thesis .
qed

subsection \<open>Keys of well-formed fragments\<close>

lemma well_formed_fields:
  assumes "well_formed f"
  obtains c s e b where "f_chrom f = Some c" "f_start f = Some s" "f_end f = Some e"
    "f_cell f = Some b" "CHR ''|'' \<notin> set c" "CHR ''|'' \<notin> set b"
proof -
  from assms obtain c s e b where f: "f_chrom f = Some c" "f_start f = Some s"
      "f_end f = Some e" "f_cell f = Some b"
    unfolding well_formed_def incomplete_def by (cases "f_chrom f"; cases "f_start f"; cases "f_end f"; cases "f_cell f") auto
  moreover from assms f have "CHR ''|'' \<notin> set c" "CHR ''|'' \<notin> set b"
    by (simp_all add: well_formed_def bar_free_def)
  ultimately show thesis by (rule that)
qed

lemma split_fullkey:
  assumes "well_formed f"
  shows "split CHR ''|'' (join ''|'' (strs f)) = coord_strs (coord f) @ [str_str_opt (f_cell f)]"
    and "Some (str_str_opt (f_cell f)) = f_cell f"
proof -
  from assms obtain c s e b where f: "f_chrom f = Some c" "f_start f = Some s"
      "f_end f = Some e" "f_cell f = Some b" "CHR ''|'' \<notin> set c" "CHR ''|'' \<notin> set b"
    by (rule well_formed_fields)
  have "split CHR ''|'' (join [CHR ''|''] [c, str_int s, str_int e, b]) = [c, str_int s, str_int e, b]"
    using f(5,6) str_int_no_bar by (intro split_join4)
  then show "split CHR ''|'' (join ''|'' (strs f)) = coord_strs (coord f) @ [str_str_opt (f_cell f)]"
    by (simp add: strs_def coord_strs_def coord_def f)
  show "Some (str_str_opt (f_cell f)) = f_cell f" by (simp add: f)
qed

lemma coordkey_eq: "join ''|'' (take 3 (strs f)) = join ''|'' (coord_strs (coord f))"
  by (simp add: strs_def coord_strs_def coord_def)

lemma split_coordkey:
  assumes "well_formed f"
  shows "split CHR ''|'' (join ''|'' (coord_strs (coord f))) = coord_strs (coord f)"
proof -
  from assms obtain c s e b where f: "f_chrom f = Some c" "f_start f = Some s"
      "f_end f = Some e" "f_cell f = Some b" "CHR ''|'' \<notin> set c" "CHR ''|'' \<notin> set b"
    by (rule well_formed_fields)
  have "split CHR ''|'' (join [CHR ''|''] [c, str_int s, str_int e]) = [c, str_int s, str_int e]"
    using f(5) str_int_no_bar by (intro split_join3)
  then show ?thesis by (simp add: coord_strs_def coord_def f)
qed

lemma coord_strs_inj:
  assumes "well_formed f" "well_formed g" "coord_strs (coord f) = coord_strs (coord g)"
  shows "coord f = coord g"
proof -
  from assms(1) obtain c s e b where f: "f_chrom f = Some c" "f_start f = Some s"
      "f_end f = Some e" "f_cell f = Some b" "CHR ''|'' \<notin> set c" "CHR ''|'' \<notin> set b"
    by (rule well_formed_fields)
  from assms(2) obtain c' s' e' b' where g: "f_chrom g = Some c'" "f_start g = Some s'"
      "f_end g = Some e'" "f_cell g = Some b'" "CHR ''|'' \<notin> set c'" "CHR ''|'' \<notin> set b'"
    by (rule well_formed_fields)
  from assms(3) have "c = c'" "str_int s = str_int s'" "str_int e = str_int e'"
    by (simp_all add: coord_strs_def coord_def f g)
  then show ?thesis using str_int_inj by (auto simp: coord_def f g)
qed

lemma coordkey_inj:
  assumes "well_formed f" "well_formed g"
    "join ''|'' (coord_strs (coord f)) = join ''|'' (coord_strs (coord g))"
  shows "coord f = coord g"
proof -
  from assms(3) have "split CHR ''|'' (join ''|'' (coord_strs (coord f))) =
                      split CHR ''|'' (join ''|'' (coord_strs (coord g)))" by simp
  then have "coord_strs (coord f) = coord_strs (coord g)"
    by (simp only: split_coordkey[OF assms(1)] split_coordkey[OF assms(2)])
  with assms(1,2) show ?thesis by (rule coord_strs_inj)
qed

subsection \<open>The loops on well-formed input\<close>

lemma entries_loop_map:
  assumes "\<And>i. i \<in> set cs \<Longrightarrow>
     \<exists>b rest. drop 3 (split CHR ''|'' (fst i)) = b # rest \<and>
       map_of fl (join ''|'' (take 3 (split CHR ''|'' (fst i)))) = Some (R (fst i)) \<and>
       map_of bl (Some b) = Some (C (fst i))"
  shows "entries_loop fl bl cs = Inr (map (\<lambda>i. (snd i, R (fst i), C (fst i))) cs)"
  using assms
proof (induction cs)
  case Nil
  show ?case by simp
next
  case (Cons i cs)
  from Cons.prems[of i] obtain b rest where
    "drop 3 (split CHR ''|'' (fst i)) = b # rest"
    "map_of fl (join ''|'' (take 3 (split CHR ''|'' (fst i)))) = Some (R (fst i))"
    "map_of bl (Some b) = Some (C (fst i))" by auto
  moreover have "entries_loop fl bl cs = Inr (map (\<lambda>i. (snd i, R (fst i), C (fst i))) cs)"
    using Cons.prems by (intro Cons.IH) simp
  ultimately show ?case by (simp add: Let_def)
qed

lemma mat_get_map:
  "mat_get (map (\<lambda>i. (snd i, R (fst i), C (fst i))) cs) r c =
   csum (\<lambda>k. R k = r \<and> C k = c) cs"
  by (induction cs) (simp_all add: mat_get_def csum_def)

lemma lookup_all_map:
  "(\<And>x. x \<in> set xs \<Longrightarrow> map_of d x = Some (g x)) \<Longrightarrow> lookup_all d xs = Inr (map g xs)"
  by (induction xs) simp_all

lemma zip3_map:
  "map (\<lambda>(frag, bc, n). (split CHR ''|'' frag, bc, n))
     (zip (map A xs) (zip (map B xs) (map C xs))) =
   map (\<lambda>x. (split CHR ''|'' (A x), B x, C x)) xs"
  by (induction xs) simp_all

lemma sum_filter_cols:
  assumes "\<And>x. x \<in> set xs \<Longrightarrow> g x < n"
  shows "sum_list (map (\<lambda>c. length (filter (\<lambda>x. P x \<and> g x = c) xs)) [0..<n]) =
         length (filter P xs)"
  using assms
proof (induction xs)
  case Nil
  show ?case by simp
next
  case (Cons x xs)
  have g: "g x < n" using Cons.prems by simp
  have "(\<lambda>c. length (filter (\<lambda>x. P x \<and> g x = c) (x # xs))) =
        (\<lambda>c. (if c = g x then (if P x then 1 else 0) else 0) +
              length (filter (\<lambda>x. P x \<and> g x = c) xs))"
    by (rule ext) auto
  then have "sum_list (map (\<lambda>c. length (filter (\<lambda>x. P x \<and> g x = c) (x # xs))) [0..<n]) =
        sum_list (map (\<lambda>c. if c = g x then (if P x then 1 else 0) else 0) [0..<n]) +
        sum_list (map (\<lambda>c. length (filter (\<lambda>x. P x \<and> g x = c) xs)) [0..<n])"
    by (simp only: sum_list_addf)
  also have "sum_list (map (\<lambda>c. length (filter (\<lambda>x. P x \<and> g x = c) xs)) [0..<n]) =
             length (filter P xs)"
    using Cons.prems by (intro Cons.IH) simp
  finally show ?case using sum_list_indicator[OF g, of "if P x then 1 else 0"] by simp
qed

lemma collapseFragments_unfold:
  fixes h :: hash_order and fragments :: fragments
  defines "frs \<equiv> map snd fragments"
  defines "fl \<equiv> id_lookup (iter_str h) (iter_int h) (map (\<lambda>x. join ''|'' (take 3 (strs x))) frs)"
  defines "bl \<equiv> id_lookup (iter_cell h) (iter_int h) (map f_cell frs)"
  assumes "entries_loop fl bl (Counter (map (\<lambda>x. join ''|'' (strs x)) frs)) = Inr es"
    and "max_values fl = Inr mr" and "max_values bl = Inr mc"
    and "lookup_all (dict_of (zip (map snd fl) (map fst fl))) [0..<mr + 1] = Inr cf"
    and "lookup_all (dict_of (zip (map snd bl) (map fst bl)))
           (map (mat_argmax_row es (mc + 1)) [0..<mr + 1]) = Inr cb"
  shows "collapseFragments h fragments =
         Inr (map (\<lambda>(frag, bc, n). (split CHR ''|'' frag, bc, n))
                (zip cf (zip cb (map (mat_sum_row es (mc + 1)) [0..<mr + 1]))))"
  using assms(4-8) unfolding collapseFragments_def Let_def frs_def fl_def bl_def
  by (simp del: upt_Suc)

lemma collapseFragments_rows:
  assumes ne: "fragments \<noteq> []" and well_formed: "\<And>f. f \<in> set (map snd fragments) \<Longrightarrow> well_formed f"
  shows "\<exists>rows. collapseFragments h fragments =
            Inr (map (\<lambda>row. (coord_strs (coord (fst row)), snd row,
                             reads_at (map snd fragments) (coord (fst row)))) rows) \<and>
          (\<forall>row \<in> set rows. fst row \<in> set (map snd fragments) \<and>
             (\<forall>b'. occurrences (map snd fragments) (coord (fst row)) b' \<le>
                   occurrences (map snd fragments) (coord (fst row)) (snd row)) \<and>
             0 < occurrences (map snd fragments) (coord (fst row)) (snd row)) \<and>
          distinct (map (\<lambda>row. coord (fst row)) rows) \<and>
          set (map (\<lambda>row. coord (fst row)) rows) = coord ` set (map snd fragments)"
proof -
  define frs where "frs = map snd fragments"
  define ck where "ck = (\<lambda>x. join ''|'' (take 3 (strs x)))"
  define fk where "fk = (\<lambda>x. join ''|'' (strs x))"
  define fl where "fl = id_lookup (iter_str h) (iter_int h) (map ck frs)"
  define bl where "bl = id_lookup (iter_cell h) (iter_int h) (map f_cell frs)"
  define n where "n = card (set (map ck frs))"
  define m where "m = card (set (map f_cell frs))"
  have frs_ne: "frs \<noteq> []" using ne by (simp add: frs_def)
  have wf: "\<And>f. f \<in> set frs \<Longrightarrow> well_formed f" using well_formed by (simp add: frs_def)
  have npos: "0 < n" and mpos: "0 < m" using frs_ne by (simp_all add: n_def m_def card_gt_0_iff)
  have fc_ne: "map ck frs \<noteq> []" and cb_ne: "map f_cell frs \<noteq> []" using frs_ne by simp_all
  from id_lookup_bij[OF fc_ne, of "iter_str h" "iter_int h"] obtain idF keyF where
    F1a: "\<forall>k \<in> set (map ck frs). map_of fl k = Some (idF k) \<and> idF k < n \<and> keyF (idF k) = k"
    and F2a: "\<forall>r < n. map_of (dict_of (zip (map snd fl) (map fst fl))) r = Some (keyF r) \<and>
               keyF r \<in> set (map ck frs) \<and> idF (keyF r) = r"
    and F3: "max_values fl = Inr (n - 1)"
    unfolding fl_def n_def by (elim exE conjE)
  from id_lookup_bij[OF cb_ne, of "iter_cell h" "iter_int h"] obtain idB keyB where
    B1a: "\<forall>k \<in> set (map f_cell frs). map_of bl k = Some (idB k) \<and> idB k < m \<and> keyB (idB k) = k"
    and B2a: "\<forall>r < m. map_of (dict_of (zip (map snd bl) (map fst bl))) r = Some (keyB r) \<and>
               keyB r \<in> set (map f_cell frs) \<and> idB (keyB r) = r"
    and B3: "max_values bl = Inr (m - 1)"
    unfolding bl_def m_def by (elim exE conjE)
  have F1: "\<And>k. k \<in> set (map ck frs) \<Longrightarrow> map_of fl k = Some (idF k) \<and> idF k < n \<and> keyF (idF k) = k"
    using F1a by blast
  have F2: "\<And>r. r < n \<Longrightarrow> map_of (dict_of (zip (map snd fl) (map fst fl))) r = Some (keyF r) \<and>
               keyF r \<in> set (map ck frs) \<and> idF (keyF r) = r"
    using F2a by blast
  have B1: "\<And>k. k \<in> set (map f_cell frs) \<Longrightarrow> map_of bl k = Some (idB k) \<and> idB k < m \<and> keyB (idB k) = k"
    using B1a by blast
  have B2: "\<And>r. r < m \<Longrightarrow> map_of (dict_of (zip (map snd bl) (map fst bl))) r = Some (keyB r) \<and>
               keyB r \<in> set (map f_cell frs) \<and> idB (keyB r) = r"
    using B2a by blast
  have F1': "\<And>f. f \<in> set frs \<Longrightarrow> map_of fl (ck f) = Some (idF (ck f)) \<and> idF (ck f) < n \<and> keyF (idF (ck f)) = ck f"
    using F1 by simp
  have B1': "\<And>f. f \<in> set frs \<Longrightarrow> map_of bl (f_cell f) = Some (idB (f_cell f)) \<and> idB (f_cell f) < m \<and> keyB (idB (f_cell f)) = f_cell f"
    using B1 by simp
  define R where "R = (\<lambda>k. idF (join ''|'' (take 3 (split CHR ''|'' k))))"
  define C where "C = (\<lambda>k. idB (Some (hd (drop 3 (split CHR ''|'' k)))))"
  have parts: "\<And>f. f \<in> set frs \<Longrightarrow>
      take 3 (split CHR ''|'' (fk f)) = take 3 (strs f) \<and>
      drop 3 (split CHR ''|'' (fk f)) = [str_str_opt (f_cell f)] \<and>
      Some (str_str_opt (f_cell f)) = f_cell f"
    using split_fullkey[OF wf] by (simp add: fk_def coord_strs_def strs_def coord_def)
  have RC: "\<And>f. f \<in> set frs \<Longrightarrow> R (fk f) = idF (ck f) \<and> C (fk f) = idB (f_cell f)"
    using parts by (simp add: R_def C_def ck_def)
  define counts where "counts = Counter (map fk frs)"
  define es where "es = map (\<lambda>i. (snd i, R (fst i), C (fst i))) counts"
  have es: "entries_loop fl bl counts = Inr es"
    unfolding es_def
  proof (rule entries_loop_map)
    fix i assume "i \<in> set counts"
    then have "fst i \<in> set (map fk frs)" using keys_Counter[of "map fk frs"] by (auto simp: counts_def)
    then obtain f where f: "f \<in> set frs" and i: "fst i = fk f" by auto
    show "\<exists>b rest. drop 3 (split CHR ''|'' (fst i)) = b # rest \<and>
       map_of fl (join ''|'' (take 3 (split CHR ''|'' (fst i)))) = Some (R (fst i)) \<and>
       map_of bl (Some b) = Some (C (fst i))"
      using parts[OF f] RC[OF f] F1'[OF f] B1'[OF f] by (simp add: i ck_def)
  qed
  define cnt where "cnt = (\<lambda>r c. length (filter (\<lambda>f. idF (ck f) = r \<and> idB (f_cell f) = c) frs))"
  have get: "\<And>r c. mat_get es r c = cnt r c"
  proof -
    fix r c
    have "mat_get es r c = length (filter (\<lambda>k. R k = r \<and> C k = c) (map fk frs))"
      by (simp add: es_def mat_get_map counts_def csum_Counter)
    also have "\<dots> = length (filter ((\<lambda>k. R k = r \<and> C k = c) \<circ> fk) frs)"
      by (simp add: filter_map)
    also have "filter ((\<lambda>k. R k = r \<and> C k = c) \<circ> fk) frs =
               filter (\<lambda>f. idF (ck f) = r \<and> idB (f_cell f) = c) frs"
      by (rule filter_cong) (simp_all add: RC)
    finally show "mat_get es r c = cnt r c" by (simp add: cnt_def)
  qed
  have row: "\<And>r. mat_row es m r = map (cnt r) [0..<m]"
    by (simp add: mat_row_def get)
  have rowsum: "\<And>r. mat_sum_row es m r = length (filter (\<lambda>f. idF (ck f) = r) frs)"
  proof -
    fix r
    have "mat_sum_row es m r =
          sum_list (map (\<lambda>c. length (filter (\<lambda>f. idF (ck f) = r \<and> idB (f_cell f) = c) frs)) [0..<m])"
      by (simp add: mat_sum_row_def row cnt_def)
    also have "\<dots> = length (filter (\<lambda>f. idF (ck f) = r) frs)"
      using B1' by (intro sum_filter_cols) simp
    finally show "mat_sum_row es m r = length (filter (\<lambda>f. idF (ck f) = r) frs)" .
  qed
  define am where "am = (\<lambda>r. mat_argmax_row es m r)"
  have am: "\<And>r. am r < m \<and> (\<forall>c<m. cnt r c \<le> cnt r (am r))"
  proof -
    fix r
    let ?xs = "map (cnt r) [0..<m]"
    have xs: "?xs \<noteq> []" using mpos by simp
    from argmax_max[OF xs] have a: "argmax ?xs < m" by simp
    then have nth: "?xs ! argmax ?xs = cnt r (argmax ?xs)" by simp
    have b: "\<forall>c<m. cnt r c \<le> cnt r (argmax ?xs)"
    proof (intro allI impI)
      fix c assume c: "c < m"
      from argmax_max[OF xs] c have "?xs ! c \<le> ?xs ! argmax ?xs" by (simp del: nth_map)
      moreover have "?xs ! c = cnt r c" using c by simp
      ultimately show "cnt r c \<le> cnt r (argmax ?xs)" using nth by (simp only:)
    qed
    from a b show "am r < m \<and> (\<forall>c<m. cnt r c \<le> cnt r (am r))"
      by (simp add: am_def mat_argmax_row_def row)
  qed
  have cf: "lookup_all (dict_of (zip (map snd fl) (map fst fl))) [0..<n] = Inr (map keyF [0..<n])"
    using F2 by (intro lookup_all_map) simp
  have cb: "lookup_all (dict_of (zip (map snd bl) (map fst bl))) (map am [0..<n]) =
            Inr (map keyB (map am [0..<n]))"
    using B2 am by (intro lookup_all_map) auto
  have n1: "n - 1 + 1 = n" and m1: "m - 1 + 1 = m" using npos mpos by simp_all
  have out: "collapseFragments h fragments =
        Inr (map (\<lambda>r. (split CHR ''|'' (keyF r), keyB (am r), mat_sum_row es m r)) [0..<n])"
  proof -
    have e': "entries_loop
        (id_lookup (iter_str h) (iter_int h) (map (\<lambda>x. join ''|'' (take 3 (strs x))) (map snd fragments)))
        (id_lookup (iter_cell h) (iter_int h) (map f_cell (map snd fragments)))
        (Counter (map (\<lambda>x. join ''|'' (strs x)) (map snd fragments))) = Inr es"
      using es by (simp only: fl_def bl_def counts_def fk_def ck_def frs_def)
    have f3: "max_values (id_lookup (iter_str h) (iter_int h)
                (map (\<lambda>x. join ''|'' (take 3 (strs x))) (map snd fragments))) = Inr (n - 1)"
      using F3 by (simp only: fl_def ck_def frs_def)
    have b3: "max_values (id_lookup (iter_cell h) (iter_int h) (map f_cell (map snd fragments))) =
              Inr (m - 1)"
      using B3 by (simp only: bl_def frs_def)
    have cf': "lookup_all (dict_of (zip
          (map snd (id_lookup (iter_str h) (iter_int h)
                (map (\<lambda>x. join ''|'' (take 3 (strs x))) (map snd fragments))))
          (map fst (id_lookup (iter_str h) (iter_int h)
                (map (\<lambda>x. join ''|'' (take 3 (strs x))) (map snd fragments))))))
          [0..<n - 1 + 1] = Inr (map keyF [0..<n])"
      using cf by (simp only: fl_def ck_def frs_def n1)
    have cb': "lookup_all (dict_of (zip
          (map snd (id_lookup (iter_cell h) (iter_int h) (map f_cell (map snd fragments))))
          (map fst (id_lookup (iter_cell h) (iter_int h) (map f_cell (map snd fragments))))))
          (map (mat_argmax_row es (m - 1 + 1)) [0..<n - 1 + 1]) = Inr (map keyB (map am [0..<n]))"
      using cb by (simp only: bl_def frs_def n1 m1 am_def)
    have "collapseFragments h fragments =
         Inr (map (\<lambda>(frag, bc, n). (split CHR ''|'' frag, bc, n))
                (zip (map keyF [0..<n]) (zip (map keyB (map am [0..<n]))
                   (map (mat_sum_row es (m - 1 + 1)) [0..<n - 1 + 1]))))"
      by (rule collapseFragments_unfold[OF e' f3 b3 cf' cb'])
    also have "map keyB (map am [0..<n]) = map (\<lambda>r. keyB (am r)) [0..<n]" by simp
    finally show ?thesis by (simp only: n1 m1 zip3_map)
  qed
  define rep where "rep = (\<lambda>r. SOME f. f \<in> set frs \<and> ck f = keyF r)"
  have rep: "\<And>r. r < n \<Longrightarrow> rep r \<in> set frs \<and> ck (rep r) = keyF r"
  proof -
    fix r assume "r < n"
    then have "keyF r \<in> set (map ck frs)" using F2 by simp
    then have "\<exists>f. f \<in> set frs \<and> ck f = keyF r" by auto
    then show "rep r \<in> set frs \<and> ck (rep r) = keyF r"
      unfolding rep_def by (rule someI_ex)
  qed
  have ck_coord: "\<And>f g. f \<in> set frs \<Longrightarrow> g \<in> set frs \<Longrightarrow> ck f = ck g \<longleftrightarrow> coord f = coord g"
  proof
    fix f g assume f: "f \<in> set frs" and g: "g \<in> set frs"
    { assume "ck f = ck g"
      then show "coord f = coord g"
        using coordkey_inj[OF wf[OF f] wf[OF g]] by (simp add: ck_def coordkey_eq) }
    { assume "coord f = coord g"
      then show "ck f = ck g" by (simp add: ck_def coordkey_eq) }
  qed
  have same_row: "\<And>r f. r < n \<Longrightarrow> f \<in> set frs \<Longrightarrow> idF (ck f) = r \<longleftrightarrow> coord f = coord (rep r)"
  proof -
    fix r f assume r: "r < n" and f: "f \<in> set frs"
    have "idF (ck f) = r \<longleftrightarrow> ck f = keyF r" using F1'[OF f] F2[OF r] by auto
    also have "\<dots> \<longleftrightarrow> ck f = ck (rep r)" using rep[OF r] by simp
    also have "\<dots> \<longleftrightarrow> coord f = coord (rep r)"
      using rep[OF r] by (intro ck_coord[OF f]) simp
    finally show "idF (ck f) = r \<longleftrightarrow> coord f = coord (rep r)" .
  qed
  define rows where "rows = map (\<lambda>r. (rep r, keyB (am r))) [0..<n]"
  have out_rows: "collapseFragments h fragments =
            Inr (map (\<lambda>row. (coord_strs (coord (fst row)), snd row,
                             reads_at frs (coord (fst row)))) rows)"
  proof -
    have "map (\<lambda>r. (split CHR ''|'' (keyF r), keyB (am r), mat_sum_row es m r)) [0..<n] =
          map (\<lambda>r. (coord_strs (coord (rep r)), keyB (am r), reads_at frs (coord (rep r)))) [0..<n]"
    proof (rule map_cong[OF refl])
      fix r assume "r \<in> set [0..<n]"
      then have r: "r < n" by simp
      have "split CHR ''|'' (keyF r) = coord_strs (coord (rep r))"
        using rep[OF r] split_coordkey[OF wf, of "rep r"] by (simp add: ck_def coordkey_eq)
      moreover have "mat_sum_row es m r = reads_at frs (coord (rep r))"
      proof -
        have "filter (\<lambda>f. idF (ck f) = r) frs = filter (\<lambda>f. coord f = coord (rep r)) frs"
          by (rule filter_cong) (simp_all add: same_row[OF r])
        then show ?thesis by (simp add: rowsum reads_at_def)
      qed
      ultimately show "(split CHR ''|'' (keyF r), keyB (am r), mat_sum_row es m r) =
          (coord_strs (coord (rep r)), keyB (am r), reads_at frs (coord (rep r)))" by simp
    qed
    then show ?thesis by (simp add: out rows_def o_def)
  qed
  have occ: "\<And>r b'. r < n \<Longrightarrow> b' \<in> set (map f_cell frs) \<Longrightarrow>
      occurrences frs (coord (rep r)) b' = cnt r (idB b')"
  proof -
    fix r b' assume r: "r < n" and b': "b' \<in> set (map f_cell frs)"
    have "filter (\<lambda>f. coord f = coord (rep r) \<and> f_cell f = b') frs =
          filter (\<lambda>f. idF (ck f) = r \<and> idB (f_cell f) = idB b') frs"
    proof (rule filter_cong[OF refl])
      fix f assume f: "f \<in> set frs"
      have "f_cell f = b' \<longleftrightarrow> idB (f_cell f) = idB b'"
        using B1'[OF f] B1[OF b'] by metis
      then show "(coord f = coord (rep r) \<and> f_cell f = b') = (idF (ck f) = r \<and> idB (f_cell f) = idB b')"
        using same_row[OF r f] by simp
    qed
    then show "occurrences frs (coord (rep r)) b' = cnt r (idB b')"
      by (simp add: occurrences_def cnt_def)
  qed
  have props: "\<forall>row \<in> set rows. fst row \<in> set frs \<and>
             (\<forall>b'. occurrences frs (coord (fst row)) b' \<le> occurrences frs (coord (fst row)) (snd row)) \<and>
             0 < occurrences frs (coord (fst row)) (snd row)"
  proof
    fix row assume "row \<in> set rows"
    then obtain r where r: "r < n" and row: "row = (rep r, keyB (am r))"
      by (auto simp: rows_def)
    have bin: "keyB (am r) \<in> set (map f_cell frs)" and bid: "idB (keyB (am r)) = am r"
      using B2[of "am r"] am[of r] by simp_all
    have top: "occurrences frs (coord (rep r)) (keyB (am r)) = cnt r (am r)"
      using occ[OF r bin] bid by simp
    have le: "\<And>b'. occurrences frs (coord (rep r)) b' \<le> occurrences frs (coord (rep r)) (keyB (am r))"
    proof -
      fix b'
      show "occurrences frs (coord (rep r)) b' \<le> occurrences frs (coord (rep r)) (keyB (am r))"
      proof (cases "b' \<in> set (map f_cell frs)")
        case True
        then have "idB b' < m" using B1 by simp
        then show ?thesis using occ[OF r True] top am[of r] by simp
      next
        case False
        then have "filter (\<lambda>f. coord f = coord (rep r) \<and> f_cell f = b') frs = []"
          by (auto simp: filter_empty_conv)
        then show ?thesis by (simp add: occurrences_def)
      qed
    qed
    have "0 < occurrences frs (coord (rep r)) (f_cell (rep r))"
      using rep[OF r] by (auto simp: occurrences_def filter_empty_conv)
    with le[of "f_cell (rep r)"] have "0 < occurrences frs (coord (rep r)) (keyB (am r))" by simp
    with le rep[OF r] show "fst row \<in> set frs \<and>
             (\<forall>b'. occurrences frs (coord (fst row)) b' \<le> occurrences frs (coord (fst row)) (snd row)) \<and>
             0 < occurrences frs (coord (fst row)) (snd row)"
      by (simp add: row)
  qed
  have inj: "inj_on (\<lambda>r. coord (rep r)) (set [0..<n])"
  proof (rule inj_onI)
    fix r r' assume "r \<in> set [0..<n]" "r' \<in> set [0..<n]" and eq: "coord (rep r) = coord (rep r')"
    then have r: "r < n" and r': "r' < n" by simp_all
    from rep[OF r] rep[OF r'] have "ck (rep r) = ck (rep r') \<longleftrightarrow> coord (rep r) = coord (rep r')"
      by (intro ck_coord) simp_all
    with eq have "ck (rep r) = ck (rep r')" by simp
    then have "keyF r = keyF r'" using rep[OF r] rep[OF r'] by simp
    then show "r = r'" using F2[OF r] F2[OF r'] by metis
  qed
  have dist: "distinct (map (\<lambda>row. coord (fst row)) rows)"
    using inj by (simp add: rows_def o_def distinct_map)
  have cover: "set (map (\<lambda>row. coord (fst row)) rows) = coord ` set frs"
  proof
    show "set (map (\<lambda>row. coord (fst row)) rows) \<subseteq> coord ` set frs"
      using rep by (auto simp: rows_def)
    show "coord ` set frs \<subseteq> set (map (\<lambda>row. coord (fst row)) rows)"
    proof
      fix co assume "co \<in> coord ` set frs"
      then obtain f where f: "f \<in> set frs" and co: "co = coord f" by auto
      have r: "idF (ck f) < n" using F1'[OF f] by simp
      have "coord f = coord (rep (idF (ck f)))" using same_row[OF r f] by simp
      then show "co \<in> set (map (\<lambda>row. coord (fst row)) rows)"
        using r by (auto simp: rows_def co)
    qed
  qed
  show ?thesis
    using out_rows props dist cover unfolding frs_def by blast
qed

lemma coord_strs_inj_on:
  assumes "\<And>f. f \<in> set frs \<Longrightarrow> well_formed f"
  shows "inj_on coord_strs (coord ` set frs)"
proof (rule inj_onI)
  fix x y assume "x \<in> coord ` set frs" "y \<in> coord ` set frs" and eq: "coord_strs x = coord_strs y"
  then obtain f g where f: "f \<in> set frs" "x = coord f" and g: "g \<in> set frs" "y = coord g" by auto
  with eq coord_strs_inj[OF assms[OF f(1)] assms[OF g(1)]] show "x = y" by simp
qed

lemma collapseFragments_output:
  assumes ne: "fragments \<noteq> []"
    and well_formed: "\<forall>f \<in> set (map snd fragments). \<not> incomplete f \<and> bar_free f"
  shows "\<exists>out. collapseFragments h fragments = Inr out \<and>
        distinct (map fst out) \<and>
        set (map fst out) = coord_strs ` coord ` set (map snd fragments) \<and>
        length out = card (coord ` set (map snd fragments)) \<and>
        (\<forall>row \<in> set out. \<forall>f \<in> set (map snd fragments). fst row = coord_strs (coord f) \<longrightarrow>
            snd (snd row) = reads_at (map snd fragments) (coord f) \<and>
            (\<forall>b'. occurrences (map snd fragments) (coord f) b' \<le>
                  occurrences (map snd fragments) (coord f) (fst (snd row))) \<and>
            0 < occurrences (map snd fragments) (coord f) (fst (snd row)))"
proof -
  let ?frs = "map snd fragments"
  have wf: "\<And>f. f \<in> set ?frs \<Longrightarrow> well_formed f" using well_formed by (auto simp: well_formed_def)
  from collapseFragments_rows[OF ne wf, of h] obtain rows where
    out: "collapseFragments h fragments =
            Inr (map (\<lambda>row. (coord_strs (coord (fst row)), snd row,
                             reads_at ?frs (coord (fst row)))) rows)"
    and props: "\<forall>row \<in> set rows. fst row \<in> set ?frs \<and>
             (\<forall>b'. occurrences ?frs (coord (fst row)) b' \<le>
                   occurrences ?frs (coord (fst row)) (snd row)) \<and>
             0 < occurrences ?frs (coord (fst row)) (snd row)"
    and dist: "distinct (map (\<lambda>row. coord (fst row)) rows)"
    and cover: "set (map (\<lambda>row. coord (fst row)) rows) = coord ` set ?frs"
    by blast
  let ?out = "map (\<lambda>row. (coord_strs (coord (fst row)), snd row, reads_at ?frs (coord (fst row)))) rows"
  have fst_out: "map fst ?out = map coord_strs (map (\<lambda>row. coord (fst row)) rows)"
    by (simp add: o_def)
  have inj: "inj_on coord_strs (set (map (\<lambda>row. coord (fst row)) rows))"
    unfolding cover using wf by (rule coord_strs_inj_on)
  have d: "distinct (map fst ?out)"
    unfolding fst_out using dist inj by (simp only: distinct_map)
  have s: "set (map fst ?out) = coord_strs ` coord ` set ?frs"
    unfolding fst_out using cover by (simp only: set_map)
  have l: "length ?out = card (coord ` set ?frs)"
    using distinct_card[OF dist] cover by simp
  have p: "\<forall>row \<in> set ?out. \<forall>f \<in> set ?frs. fst row = coord_strs (coord f) \<longrightarrow>
            snd (snd row) = reads_at ?frs (coord f) \<and>
            (\<forall>b'. occurrences ?frs (coord f) b' \<le> occurrences ?frs (coord f) (fst (snd row))) \<and>
            0 < occurrences ?frs (coord f) (fst (snd row))"
  proof (intro ballI impI)
    fix row f assume "row \<in> set ?out" and f: "f \<in> set ?frs" and eq: "fst row = coord_strs (coord f)"
    then obtain r where r: "r \<in> set rows"
      and row: "row = (coord_strs (coord (fst r)), snd r, reads_at ?frs (coord (fst r)))"
      by auto
    from props r have rf: "fst r \<in> set ?frs" by blast
    from eq row have "coord_strs (coord (fst r)) = coord_strs (coord f)" by simp
    then have c: "coord (fst r) = coord f"
      by (rule coord_strs_inj[OF wf[OF rf] wf[OF f]])
    from props r have "(\<forall>b'. occurrences ?frs (coord (fst r)) b' \<le>
                   occurrences ?frs (coord (fst r)) (snd r)) \<and>
             0 < occurrences ?frs (coord (fst r)) (snd r)" by blast
    then show "snd (snd row) = reads_at ?frs (coord f) \<and>
            (\<forall>b'. occurrences ?frs (coord f) b' \<le> occurrences ?frs (coord f) (fst (snd row))) \<and>
            0 < occurrences ?frs (coord f) (fst (snd row))"
      by (simp only: c row fst_conv snd_conv) simp
  qed
  from out d s l p show ?thesis by blast
qed

lemma str_int_106: "str_int 106 = ''106''"
  by (simp add: str_int_def digits.simps digit_char_def)

lemma str_int_245: "str_int 245 = ''245''"
  by (simp add: str_int_def digits.simps digit_char_def)

lemma scenario_dedup:
  "collapseFragments h [(q1, frag_AAAA), (q2, frag_AAAA), (q3, frag_BBBB)] =
     Inr [([''chr1'', ''106'', ''245''], Some ''AAAA'', 3)]"
proof -
  let ?fr = "[(q1, frag_AAAA), (q2, frag_AAAA), (q3, frag_BBBB)]"
  let ?co = "(Some ''chr1'', Some (106::int), Some (245::int))"
  have cA: "coord frag_AAAA = ?co" and cB: "coord frag_BBBB = ?co"
    by (simp_all add: coord_def frag_AAAA_def frag_BBBB_def)
  have cells: "f_cell frag_AAAA = Some ''AAAA''" "f_cell frag_BBBB = Some ''BBBB''"
    by (simp_all add: frag_AAAA_def frag_BBBB_def)
  have well_formed: "\<forall>f \<in> set (map snd ?fr). \<not> incomplete f \<and> bar_free f"
    by (simp add: incomplete_def bar_free_def frag_AAAA_def frag_BBBB_def)
  from collapseFragments_output[of ?fr h, OF _ well_formed] obtain out where
    out: "collapseFragments h ?fr = Inr out"
    and s: "set (map fst out) = coord_strs ` coord ` set (map snd ?fr)"
    and l: "length out = card (coord ` set (map snd ?fr))"
    and p: "\<forall>row \<in> set out. \<forall>f \<in> set (map snd ?fr). fst row = coord_strs (coord f) \<longrightarrow>
            snd (snd row) = reads_at (map snd ?fr) (coord f) \<and>
            (\<forall>b'. occurrences (map snd ?fr) (coord f) b' \<le>
                  occurrences (map snd ?fr) (coord f) (fst (snd row))) \<and>
            0 < occurrences (map snd ?fr) (coord f) (fst (snd row))"
    by auto
  let ?frs = "[frag_AAAA, frag_AAAA, frag_BBBB]"
  have ms: "map snd ?fr = ?frs" by simp
  have img: "coord ` set ?frs = {?co}" by (simp add: cA cB)
  from l img have "length out = 1" by (simp only: ms) simp
  then obtain row where row: "out = [row]" by (cases out) auto
  have strs: "coord_strs ?co = [''chr1'', ''106'', ''245'']"
    by (simp add: coord_strs_def str_int_106 str_int_245)
  from s row have "{fst row} = coord_strs ` coord ` set ?frs" by (simp only: ms) simp
  then have f: "fst row = [''chr1'', ''106'', ''245'']" by (simp only: img) (simp add: strs)
  have "row \<in> set out" "frag_AAAA \<in> set (map snd ?fr)" "fst row = coord_strs (coord frag_AAAA)"
    using row f strs cA by simp_all
  with p have "snd (snd row) = reads_at (map snd ?fr) (coord frag_AAAA) \<and>
            (\<forall>b'. occurrences (map snd ?fr) (coord frag_AAAA) b' \<le>
                  occurrences (map snd ?fr) (coord frag_AAAA) (fst (snd row)))"
    by blast
  then have pr: "snd (snd row) = reads_at ?frs ?co"
    and mx: "\<And>b'. occurrences ?frs ?co b' \<le> occurrences ?frs ?co (fst (snd row))"
    by (simp_all only: ms cA)
  have n: "snd (snd row) = 3" using pr by (simp add: reads_at_def cA cB)
  have occ: "\<And>b. occurrences ?frs ?co b =
               (if b = Some ''AAAA'' then 2 else if b = Some ''BBBB'' then 1 else 0)"
    by (auto simp: occurrences_def cA cB cells)
  from mx[of "Some ''AAAA''"] have b: "fst (snd row) = Some ''AAAA''"
    by (simp only: occ) (simp split: if_splits)
  have "row = ([''chr1'', ''106'', ''245''], Some ''AAAA'', 3)"
    using f b n by (cases row) auto
  with out row show ?thesis by simp
qed

subsection \<open>Concrete runs\<close>

lemma collapse_ABB:
  "collapseFragments first_seen [(''R1'', frag_AAAA), (''R2'', frag_BBBB), (''R3'', frag_BBBB)] =
     Inr [([''chr1'', ''106'', ''245''], Some ''BBBB'', 3)]"
  by code_simp

lemma collapse_ABC:
  "collapseFragments first_seen [(''R1'', frag_AAAA), (''R2'', frag_BBBB), (''R3'', frag_CCCC)] =
     Inr [([''chr1'', ''106'', ''245''], Some ''AAAA'', 2),
          ([''chr1'', ''300'', ''450''], Some ''CCCC'', 1)]"
  by code_simp

lemma py_set_same: "set l = {x} \<Longrightarrow> py_set iter l = [x]"
proof -
  assume s: "set l = {x}"
  have d: "distinct (py_set iter l)" by (rule py_set_distinct)
  have e: "set (py_set iter l) = {x}" using s by (simp add: py_set_set)
  from distinct_card[OF d] e have "length (py_set iter l) = 1" by simp
  then obtain y where y: "py_set iter l = [y]" by (cases "py_set iter l") auto
  with e show ?thesis by simp
qed

lemma id_lookup_same: "id_lookup iter_key iter_idx [x, x] = [(x, 0)]"
  by (simp add: id_lookup_def py_set_same dict_of_def)

lemma strs_gi:
  "strs frag_gi = [''gi|9626243|ref|NC_001416.1|'', ''106'', ''245'', ''AAAA'']"
  by (simp add: strs_def frag_gi_def str_int_106 str_int_245)

text \<open>
  A key that splits into the coordinate and barcode of other fragments raises nothing:
  the fragment is counted in their row, and its own row has the count 0.
\<close>

lemma separator_silent_wrong_row:
  "collapseFragments first_seen [(''R1'', frag_a1), (''R2'', frag_a)] =
     Inr [([''a'', ''1'', ''2'', ''3''], Some ''X'', 0), ([''a'', ''1'', ''2''], Some ''3'', 2)]"
  by code_simp

text \<open>getFragments on a file with the one pair R1, and on an interval without reads.\<close>

lemma getFragments_R1:
  "getFragments first_seen scan_tags_model bam_R1 (''chr1'', 1000) ''reads.bam'' 30 ''CB'' None
     None = Inr [([''chr1'', ''106'', ''245''], Some ''AAAA'', 1)]"
  by code_simp

lemma getFragments_empty_partition:
  assumes "AlignmentFile bam = Inr inputBam"
    and "inputBam (fst interval) 0 (snd interval) = Inr []"
  shows "getFragments h scan_tags AlignmentFile interval bam min_mapq cellbarcode None cells =
           Inl ValueError"
  using assms
  by (simp add: getFragments_def filterFragmentDict_def collapseFragments_def id_lookup_def
      py_set_Nil dict_of_def Counter_def max_values_def)

text \<open>
  Folding a read in again later is not folding it in twice in a row: after another
  forward read of the pair has stored its start, the first read stores its own again.
\<close>

lemma refold_after_other_read:
  "segments_loop scan_tags_model [] [read_R1_fwd, read_R1_fwd_other] 30 ''CB'' None None =
     Inr [(''R1'', frag_AAAA\<lparr>f_start := Some 306, f_end := None\<rparr>)] \<and>
   updateFragmentDict scan_tags_model [(''R1'', frag_AAAA\<lparr>f_start := Some 306, f_end := None\<rparr>)]
     read_R1_fwd 30 ''CB'' None None = Inr [(''R1'', frag_AAAA\<lparr>f_end := None\<rparr>)]"
  by (simp add: updateFragmentDict_def cell_barcode_of_def scan_tags_model_def read_R1_fwd_def
      read_R1_fwd_other_def set_position_def frag_AAAA_def)

lemma well_formed_examples:
  "\<not> incomplete frag_AAAA \<and> bar_free frag_AAAA"
  "\<not> incomplete frag_BBBB \<and> bar_free frag_BBBB"
  "\<not> incomplete frag_CCCC \<and> bar_free frag_CCCC"
  by (simp_all add: incomplete_def bar_free_def frag_AAAA_def frag_BBBB_def frag_CCCC_def)

section \<open>Claims about the assembler and the completeness filter\<close>

text \<open>
  C2: an accepted forward read stores start = reference_start + query_alignment_start + 4
  in the entry of its read pair, an accepted reverse read stores end = reference_end - 5.
  The forward read at reference start 100 with query alignment start 2 and the reverse
  read with reference end 250, both of pair R1 on chr1 with barcode AAAA, give in either
  order the one completed fragment (chr1, 106, 245, AAAA).
\<close>

theorem updateFragmentDict_positions:
  "(accepted scan_tags segment min_mapq cellbarcode readname_barcode cells \<longrightarrow>
      (\<exists>d f. updateFragmentDict scan_tags fragments segment min_mapq cellbarcode
                readname_barcode cells = Inr d \<and>
             map_of d (query_name segment) = Some f \<and>
             (\<not> is_reverse segment \<longrightarrow>
                f_start f = Some (reference_start segment + query_alignment_start segment + 4)) \<and>
             (is_reverse segment \<longrightarrow>
                (\<exists>rend. reference_end segment = Some rend \<and> f_end f = Some (rend - 5))))) \<and>
   (fst (scan_tags [(''CB'', ''AAAA'')] ''CB'') = Some ''AAAA'' \<longrightarrow>
      (\<exists>d. segments_loop scan_tags [] [read_R1_fwd, read_R1_rev] 30 ''CB'' None None = Inr d \<and>
           segments_loop scan_tags [] [read_R1_rev, read_R1_fwd] 30 ''CB'' None None = Inr d \<and>
           filterFragmentDict d = Inr [(''R1'', frag_AAAA)]))"
proof (intro conjI impI)
  assume acc: "accepted scan_tags segment min_mapq cellbarcode readname_barcode cells"
  then obtain rend where rend: "reference_end segment = Some rend"
    by (auto simp: accepted_def split: sum.splits)
  let ?q = "query_name segment"
  from accepted_update[OF acc rend, of fragments]
  obtain d b where upd: "updateFragmentDict scan_tags fragments segment min_mapq cellbarcode
                readname_barcode cells = Inr d"
    and d: "d = (if ?q \<in> fst ` set fragments
          then dict_modify fragments ?q (set_position segment rend)
          else dict_modify (dict_set fragments ?q
                 \<lparr>f_chrom = reference_name segment, f_start = None, f_end = None, f_cell = b\<rparr>)
                 ?q (set_position segment rend))"
    by auto
  have "\<exists>f0. map_of d ?q = Some (set_position segment rend f0)"
  proof (cases "?q \<in> fst ` set fragments")
    case True
    then obtain f0 where "map_of fragments ?q = Some f0"
      by (cases "map_of fragments ?q") (auto simp: map_of_eq_None_iff)
    then have "map_of d ?q = Some (set_position segment rend f0)"
      using True d by (simp add: map_of_dict_modify)
    then show ?thesis by blast
  next
    case False
    then have "map_of d ?q = Some (set_position segment rend
        \<lparr>f_chrom = reference_name segment, f_start = None, f_end = None, f_cell = b\<rparr>)"
      using d by (simp add: map_of_dict_modify map_of_dict_set)
    then show ?thesis by blast
  qed
  then obtain f0 where f0: "map_of d ?q = Some (set_position segment rend f0)" ..
  show "\<exists>d f. updateFragmentDict scan_tags fragments segment min_mapq cellbarcode
                readname_barcode cells = Inr d \<and>
             map_of d (query_name segment) = Some f \<and>
             (\<not> is_reverse segment \<longrightarrow>
                f_start f = Some (reference_start segment + query_alignment_start segment + 4)) \<and>
             (is_reverse segment \<longrightarrow>
                (\<exists>rend. reference_end segment = Some rend \<and> f_end f = Some (rend - 5)))"
    using upd f0 rend by (auto simp: set_position_def Let_def)
next
  assume "fst (scan_tags [(''CB'', ''AAAA'')] ''CB'') = Some ''AAAA''"
  then show "\<exists>d. segments_loop scan_tags [] [read_R1_fwd, read_R1_rev] 30 ''CB'' None None = Inr d \<and>
           segments_loop scan_tags [] [read_R1_rev, read_R1_fwd] 30 ''CB'' None None = Inr d \<and>
           filterFragmentDict d = Inr [(''R1'', frag_AAAA)]"
    by (simp add: updateFragmentDict_def cell_barcode_of_def read_R1_fwd_def read_R1_rev_def
        set_position_def Let_def filterFragmentDict_def all_values_def frag_AAAA_def)
qed

theorem updateFragmentDict_positions_witness:
  "accepted scan_tags_model read_R1_fwd 30 ''CB'' None None \<and>
   fst (scan_tags_model [(''CB'', ''AAAA'')] ''CB'') = Some ''AAAA'' \<and>
   (\<exists>d f. updateFragmentDict scan_tags_model [] read_R1_fwd 30 ''CB'' None None = Inr d \<and>
       map_of d ''R1'' = Some f \<and> f_start f = Some 106) \<and>
   (\<exists>d. segments_loop scan_tags_model [] [read_R1_fwd, read_R1_rev] 30 ''CB'' None None = Inr d \<and>
       filterFragmentDict d = Inr [(''R1'', frag_AAAA)])"
proof -
  have a: "accepted scan_tags_model read_R1_fwd 30 ''CB'' None None"
    by (simp add: accepted_def cell_barcode_of_def scan_tags_model_def read_R1_fwd_def)
  have s: "fst (scan_tags_model [(''CB'', ''AAAA'')] ''CB'') = Some ''AAAA''"
    by (simp add: scan_tags_model_def)
  have r: "query_name read_R1_fwd = ''R1''" "\<not> is_reverse read_R1_fwd"
     "reference_start read_R1_fwd + query_alignment_start read_R1_fwd + 4 = 106"
    by (simp_all add: read_R1_fwd_def)
  from updateFragmentDict_positions[of scan_tags_model read_R1_fwd 30 "''CB''" None None "[]"] a s r
  show ?thesis by auto
qed

text \<open>
  C4: on a dictionary (each key once) the completeness filter returns exactly the entries
  none of whose fields chrom, start, end, cell is null, empty or zero, unchanged and in
  their order.
\<close>

theorem filterFragmentDict_removes_incomplete:
  "distinct (map fst fragments) \<Longrightarrow>
   filterFragmentDict fragments = Inr (filter (\<lambda>kv. \<not> incomplete (snd kv)) fragments)"
  by (simp add: filterFragmentDict_eq all_values_incomplete)

theorem filterFragmentDict_removes_incomplete_witness:
  "distinct (map fst [(''R1'', frag_AAAA), (''R2'', frag_AAAA\<lparr>f_start := Some 0\<rparr>),
                      (''R3'', frag_BBBB\<lparr>f_end := None\<rparr>), (''R4'', frag_BBBB)]) \<and>
   filterFragmentDict [(''R1'', frag_AAAA), (''R2'', frag_AAAA\<lparr>f_start := Some 0\<rparr>),
                       (''R3'', frag_BBBB\<lparr>f_end := None\<rparr>), (''R4'', frag_BBBB)] =
     Inr [(''R1'', frag_AAAA), (''R4'', frag_BBBB)]"
proof -
  have d: "distinct (map fst [(''R1'', frag_AAAA), (''R2'', frag_AAAA\<lparr>f_start := Some 0\<rparr>),
                      (''R3'', frag_BBBB\<lparr>f_end := None\<rparr>), (''R4'', frag_BBBB)])"
    by simp
  from filterFragmentDict_removes_incomplete[OF d] d show ?thesis
    by (simp add: incomplete_def frag_AAAA_def frag_BBBB_def)
qed

text \<open>
  C6: a read whose mapping quality is below the threshold, or whose reference end is
  unknown, leaves the mapping as it is. Folded in with any mate, before or after it, it
  gives what the mate alone gives, and the completeness filter leaves nothing of that:
  the pair yields no completed fragment. The barcode is read before these tests (lines
  152-156), so a pattern, where one is passed, has to match the name of the read; with
  no pattern, the only way getFragments calls the function, this holds for every read.
\<close>

theorem rejected_read_unchanged:
  assumes "mapping_quality segment < min_mapq \<or> reference_end segment = None"
    and "\<forall>rx. readname_barcode = Some rx \<longrightarrow> rx (query_name segment) \<noteq> None"
  shows "updateFragmentDict scan_tags fragments segment min_mapq cellbarcode readname_barcode
           cells = Inr fragments \<and>
         segments_loop scan_tags [] [mate, segment] min_mapq cellbarcode readname_barcode cells =
           updateFragmentDict scan_tags [] mate min_mapq cellbarcode readname_barcode cells \<and>
         segments_loop scan_tags [] [segment, mate] min_mapq cellbarcode readname_barcode cells =
           updateFragmentDict scan_tags [] mate min_mapq cellbarcode readname_barcode cells \<and>
         (\<forall>d. updateFragmentDict scan_tags [] mate min_mapq cellbarcode readname_barcode cells =
                Inr d \<longrightarrow> filterFragmentDict d = Inr [])"
proof -
  from assms(2) obtain b where
    b: "cell_barcode_of scan_tags segment cellbarcode readname_barcode = Inr b"
    by (cases readname_barcode) (auto simp: cell_barcode_of_def)
  have rej: "\<And>fr. updateFragmentDict scan_tags fr segment min_mapq cellbarcode readname_barcode
           cells = Inr fr"
    using b assms(1) by (auto simp: updateFragmentDict_def split: option.splits)
  show ?thesis
    using rej single_read_incomplete[of scan_tags mate min_mapq cellbarcode readname_barcode cells]
    by (auto split: sum.splits)
qed

theorem rejected_read_unchanged_witness:
  "mapping_quality read_R1_rev_mapq20 < 30 \<and>
   updateFragmentDict scan_tags_model [(''R1'', frag_AAAA\<lparr>f_end := None\<rparr>)] read_R1_rev_mapq20 30
     ''CB'' None None = Inr [(''R1'', frag_AAAA\<lparr>f_end := None\<rparr>)] \<and>
   segments_loop scan_tags_model [] [read_R1_fwd, read_R1_rev_mapq20] 30 ''CB'' None None =
     Inr [(''R1'', frag_AAAA\<lparr>f_end := None\<rparr>)] \<and>
   filterFragmentDict [(''R1'', frag_AAAA\<lparr>f_end := None\<rparr>)] = Inr []"
proof -
  have q: "mapping_quality read_R1_rev_mapq20 < 30 \<or> reference_end read_R1_rev_mapq20 = None"
    by (simp add: read_R1_rev_mapq20_def read_R1_rev_def)
  have n: "\<forall>rx. (None :: (string \<Rightarrow> string option) option) = Some rx \<longrightarrow>
             rx (query_name read_R1_rev_mapq20) \<noteq> None"
    by simp
  have m: "updateFragmentDict scan_tags_model [] read_R1_fwd 30 ''CB'' None None =
     Inr [(''R1'', frag_AAAA\<lparr>f_end := None\<rparr>)]"
    by (simp add: updateFragmentDict_def cell_barcode_of_def scan_tags_model_def read_R1_fwd_def
        set_position_def frag_AAAA_def)
  from rejected_read_unchanged[OF q n, of scan_tags_model "[(''R1'', frag_AAAA\<lparr>f_end := None\<rparr>)]"
      "''CB''" None read_R1_fwd] q m
  show ?thesis by (simp add: read_R1_rev_mapq20_def read_R1_rev_def)
qed

text \<open>
  C7: an accepted read whose read pair has an entry changes that entry only: end for a
  reverse read, start for a forward read. chrom and cell stay what they were, whatever
  the barcode of the read; the other entries and the order of the keys stay too.
\<close>

theorem updateFragmentDict_existing_entry:
  assumes "accepted scan_tags segment min_mapq cellbarcode readname_barcode cells"
    and "map_of fragments (query_name segment) = Some f"
  shows "\<exists>d f'. updateFragmentDict scan_tags fragments segment min_mapq cellbarcode
                   readname_barcode cells = Inr d \<and>
           map_of d (query_name segment) = Some f' \<and>
           f_chrom f' = f_chrom f \<and> f_cell f' = f_cell f \<and>
           (is_reverse segment \<longrightarrow>
              (\<exists>rend. reference_end segment = Some rend \<and> f' = f\<lparr>f_end := Some (rend - 5)\<rparr>)) \<and>
           (\<not> is_reverse segment \<longrightarrow>
              f' = f\<lparr>f_start :=
                       Some (reference_start segment + query_alignment_start segment + 4)\<rparr>) \<and>
           (\<forall>k. k \<noteq> query_name segment \<longrightarrow> map_of d k = map_of fragments k) \<and>
           map fst d = map fst fragments"
proof -
  from assms(1) obtain rend where rend: "reference_end segment = Some rend"
    by (auto simp: accepted_def split: sum.splits)
  let ?q = "query_name segment"
  have inq: "?q \<in> fst ` set fragments"
    using map_of_SomeD[OF assms(2)] by force
  from accepted_update[OF assms(1) rend, of fragments] inq
  have upd: "updateFragmentDict scan_tags fragments segment min_mapq cellbarcode
                readname_barcode cells = Inr (dict_modify fragments ?q (set_position segment rend))"
    by auto
  show ?thesis
    using upd assms(2) rend
    by (auto simp: map_of_dict_modify map_fst_dict_modify set_position_def Let_def)
qed

theorem updateFragmentDict_existing_entry_witness:
  "accepted scan_tags_model read_R1_rev 30 ''CB'' None None \<and>
   map_of [(''R1'', frag_BBBB\<lparr>f_end := None\<rparr>)] (query_name read_R1_rev) = Some (frag_BBBB\<lparr>f_end := None\<rparr>) \<and>
   updateFragmentDict scan_tags_model [(''R1'', frag_BBBB\<lparr>f_end := None\<rparr>)] read_R1_rev 30 ''CB''
     None None = Inr [(''R1'', frag_BBBB)]"
proof -
  have a: "accepted scan_tags_model read_R1_rev 30 ''CB'' None None"
    by (simp add: accepted_def cell_barcode_of_def scan_tags_model_def read_R1_rev_def)
  have m: "map_of [(''R1'', frag_BBBB\<lparr>f_end := None\<rparr>)] (query_name read_R1_rev) = Some (frag_BBBB\<lparr>f_end := None\<rparr>)"
    by (simp add: read_R1_rev_def)
  from updateFragmentDict_existing_entry[OF a m]
  obtain d f' where u: "updateFragmentDict scan_tags_model [(''R1'', frag_BBBB\<lparr>f_end := None\<rparr>)] read_R1_rev 30 ''CB''
     None None = Inr d" and mf: "map_of d (query_name read_R1_rev) = Some f'"
     and f': "is_reverse read_R1_rev \<longrightarrow> (\<exists>rend. reference_end read_R1_rev = Some rend \<and> f' = frag_BBBB\<lparr>f_end := None, f_end := Some (rend - 5)\<rparr>)"
     and k: "map fst d = map fst [(''R1'', frag_BBBB\<lparr>f_end := None\<rparr>)]"
    by blast
  from f' have "f' = frag_BBBB" by (simp add: read_R1_rev_def frag_BBBB_def)
  moreover from k obtain v where "d = [(''R1'', v)]" by (cases d) auto
  ultimately have "d = [(''R1'', frag_BBBB)]" using mf by (simp add: read_R1_rev_def)
  with a m u show ?thesis by simp
qed

text \<open>
  C8, as amended: a read folded in a second time directly after the first time gives the
  mapping that folding it in once gives. The second call finds the entry of the read
  pair and assigns to start or end the value the first call stored.
\<close>

theorem updateFragmentDict_idempotent:
  assumes "updateFragmentDict scan_tags fragments segment min_mapq cellbarcode readname_barcode cells = Inr d"
  shows "updateFragmentDict scan_tags d segment min_mapq cellbarcode readname_barcode cells = Inr d"
proof (cases "accepted scan_tags segment min_mapq cellbarcode readname_barcode cells")
  case False
  then have "d = fragments"
    using assms by (auto simp: accepted_def updateFragmentDict_def Let_def split: sum.splits if_splits option.splits)
  then show ?thesis using assms by simp
next
  case True
  then obtain rend where rend: "reference_end segment = Some rend"
    by (auto simp: accepted_def split: sum.splits)
  let ?q = "query_name segment"
  let ?g = "set_position segment rend"
  have inq: "?q \<in> fst ` set d" and idem: "dict_modify d ?q ?g = d"
  proof -
    from accepted_update[OF True rend, of fragments] assms
    obtain b where d: "d = (if ?q \<in> fst ` set fragments then dict_modify fragments ?q ?g
          else dict_modify (dict_set fragments ?q
                 \<lparr>f_chrom = reference_name segment, f_start = None, f_end = None,
                  f_cell = b\<rparr>) ?q ?g)"
      by auto
    show "?q \<in> fst ` set d"
      by (subst d) (simp add: keys_dict_modify keys_dict_set)
    show "dict_modify d ?q ?g = d"
      by (subst (1 2) d) (simp add: dict_modify_idem set_position_idem)
  qed
  from accepted_update[OF True rend, of d] inq idem show ?thesis by auto
qed

theorem updateFragmentDict_idempotent_witness:
  "updateFragmentDict scan_tags_model [(''R1'', frag_AAAA\<lparr>f_end := None\<rparr>)] read_R1_rev 30 ''CB''
     None None = Inr [(''R1'', frag_AAAA)] \<and>
   updateFragmentDict scan_tags_model [(''R1'', frag_AAAA)] read_R1_rev 30 ''CB'' None None =
     Inr [(''R1'', frag_AAAA)]"
proof -
  have u: "updateFragmentDict scan_tags_model [(''R1'', frag_AAAA\<lparr>f_end := None\<rparr>)] read_R1_rev
             30 ''CB'' None None = Inr [(''R1'', frag_AAAA)]"
    by (simp add: updateFragmentDict_def cell_barcode_of_def scan_tags_model_def read_R1_rev_def
        set_position_def frag_AAAA_def)
  from updateFragmentDict_idempotent[OF u] u show ?thesis by simp
qed

text \<open>
  The claim as stated says that the second fold gives another mapping than the first.
  For the forward read of pair R1, folded into the empty mapping and at once again, both
  folds give the same mapping.
\<close>

theorem second_fold_counterexample:
  "updateFragmentDict scan_tags_model [] read_R1_fwd 30 ''CB'' None None =
     Inr [(''R1'', frag_AAAA\<lparr>f_end := None\<rparr>)] \<and>
   updateFragmentDict scan_tags_model [(''R1'', frag_AAAA\<lparr>f_end := None\<rparr>)] read_R1_fwd 30 ''CB''
     None None = Inr [(''R1'', frag_AAAA\<lparr>f_end := None\<rparr>)]"
  by (simp add: updateFragmentDict_def cell_barcode_of_def scan_tags_model_def read_R1_fwd_def
        set_position_def frag_AAAA_def)

text \<open>
  C9: the claim asks for a failure that names the unparseable barcode and stays with the
  read. The code has neither: with a compiled pattern that does not match the name of
  the read, \<open>match\<close> returns \<open>None\<close> at line 153 and \<open>re_match.group()\<close> at line 154
  raises AttributeError out of updateFragmentDict. No barcode, null or empty, is put in
  the place of the missing one, and no mapping is returned.
\<close>

theorem unmatched_name_raises:
  assumes "rx (query_name segment) = None"
  shows "updateFragmentDict scan_tags fragments segment min_mapq cellbarcode (Some rx) cells =
           Inl AttributeError"
  using assms by (simp add: updateFragmentDict_def cell_barcode_of_def)

theorem unmatched_name_raises_witness:
  "match_acgt (query_name read_R1_fwd) = None \<and>
   updateFragmentDict scan_tags_model [] read_R1_fwd 30 ''CB'' (Some match_acgt) None =
     Inl AttributeError"
proof -
  have n: "match_acgt (query_name read_R1_fwd) = None"
    by (simp add: match_acgt_def read_R1_fwd_def)
  from unmatched_name_raises[where rx = match_acgt and segment = read_R1_fwd
      and scan_tags = scan_tags_model and fragments = "[]" and min_mapq = 30
      and cellbarcode = "''CB''" and cells = None] n
  show ?thesis by simp
qed

text \<open>
  C10, as amended: called with a pattern on an alignment file that opens, getFragments
  raises NameError at line 108, whatever the reads of the interval are: \<open>fetch\<close> is not
  called and no read is processed. When the file does not open, the call ends at line
  106 with the exception of the open. Either way no read name meets the pattern.
\<close>

theorem getFragments_regex_NameError:
  "(AlignmentFile bam = Inr inputBam \<longrightarrow>
      getFragments h scan_tags AlignmentFile interval bam min_mapq cellbarcode (Some pattern)
        cells = Inl NameError) \<and>
   (AlignmentFile bam = Inl e \<longrightarrow>
      getFragments h scan_tags AlignmentFile interval bam min_mapq cellbarcode (Some pattern)
        cells = Inl e)"
  by (simp add: getFragments_def)

theorem getFragments_regex_NameError_witness:
  "bam_R1 ''reads.bam'' = Inr fetch_R1 \<and>
   getFragments first_seen scan_tags_model bam_R1 (''chr1'', 1000) ''reads.bam'' 30 ''CB''
     (Some ''[^:]*'') None = Inl NameError \<and>
   missing_bam ''none.bam'' = Inl FileNotFoundError \<and>
   getFragments first_seen scan_tags_model missing_bam (''chr1'', 1000) ''none.bam'' 30 ''CB''
     (Some ''[^:]*'') None = Inl FileNotFoundError"
proof -
  have o: "bam_R1 ''reads.bam'' = Inr fetch_R1" by (simp add: bam_R1_def)
  have m: "missing_bam ''none.bam'' = Inl FileNotFoundError" by (simp add: missing_bam_def)
  from getFragments_regex_NameError[of bam_R1 "''reads.bam''" fetch_R1 first_seen
      scan_tags_model "(''chr1'', 1000)" 30 "''CB''" "''[^:]*''" None] o
  have a: "getFragments first_seen scan_tags_model bam_R1 (''chr1'', 1000) ''reads.bam'' 30 ''CB''
     (Some ''[^:]*'') None = Inl NameError" by simp
  from getFragments_regex_NameError[of missing_bam "''none.bam''" _ first_seen
      scan_tags_model "(''chr1'', 1000)" 30 "''CB''" "''[^:]*''" None FileNotFoundError] m
  have b: "getFragments first_seen scan_tags_model missing_bam (''chr1'', 1000) ''none.bam'' 30
     ''CB'' (Some ''[^:]*'') None = Inl FileNotFoundError" by simp
  from o a m b show ?thesis by simp
qed

text \<open>
  The claim as stated says NameError for every call. For a path at which there is no
  file the call raises the exception of the open, before line 108 is reached.
\<close>

theorem unreadable_bam_counterexample:
  "getFragments first_seen scan_tags_model missing_bam (''chr1'', 1000) ''reads.bam'' 30 ''CB''
     (Some ''[ACGT]+'') None = Inl FileNotFoundError"
  by (simp add: getFragments_def missing_bam_def)

section \<open>Claims about the deduplicator\<close>

text \<open>
  C1: the claim covers every non-empty collection of completed fragments; the code
  fails it where a chromosome name contains the separator \<open>|\<close>, which the reference
  names of an alignment file may do. Lines 30-31 join the fields with \<open>|\<close> and lines 44-46
  split the joined key again to find the row: for two fragments on
  gi|9626243|ref|NC_001416.1| the first three parts are gi, 9626243 and ref, their join
  is not a key of frag_id_lookup, and the subscript of line 46 raises KeyError, whatever
  the iteration order of the sets. No row is returned for the coordinate.
\<close>

theorem separator_in_chromosome_raises:
  "\<not> incomplete frag_gi \<and>
   collapseFragments h [(q1, frag_gi), (q2, frag_gi)] = Inl KeyError"
proof -
  have "\<not> incomplete frag_gi" by (simp add: incomplete_def frag_gi_def)
  moreover have "collapseFragments h [(q1, frag_gi), (q2, frag_gi)] = Inl KeyError"
    by (simp add: collapseFragments_def strs_gi id_lookup_same Counter_def counter_add_def
        Let_def)
  ultimately show ?thesis by simp
qed

text \<open>
  Where no chromosome name and no barcode contains the separator, the code does what the
  claim says. For such a non-empty collection of completed fragments collapseFragments
  returns one row for every distinct coordinate (chrom, start, end) and no other row.
  The row carries the coordinate as three strings, a barcode whose number of fragments
  at the coordinate is the largest (and not zero), and as count the number of all
  fragments at the coordinate, whatever their barcode. This holds for every iteration
  order of the sets. Two fragments (chr1, 106, 245, AAAA) and one (chr1, 106, 245, BBBB)
  give the one row (chr1, 106, 245, AAAA, 3).
\<close>

theorem collapseFragments_one_per_coordinate:
  "(fragments \<noteq> [] \<and> (\<forall>f \<in> set (map snd fragments). \<not> incomplete f \<and> bar_free f) \<longrightarrow>
      (\<exists>out. collapseFragments h fragments = Inr out \<and>
         distinct (map fst out) \<and>
         set (map fst out) = coord_strs ` coord ` set (map snd fragments) \<and>
         length out = card (coord ` set (map snd fragments)) \<and>
         (\<forall>row \<in> set out. \<forall>f \<in> set (map snd fragments). fst row = coord_strs (coord f) \<longrightarrow>
            snd (snd row) = reads_at (map snd fragments) (coord f) \<and>
            (\<forall>b'. occurrences (map snd fragments) (coord f) b' \<le>
                  occurrences (map snd fragments) (coord f) (fst (snd row))) \<and>
            0 < occurrences (map snd fragments) (coord f) (fst (snd row))))) \<and>
   collapseFragments h [(q1, frag_AAAA), (q2, frag_AAAA), (q3, frag_BBBB)] =
     Inr [([''chr1'', ''106'', ''245''], Some ''AAAA'', 3)]"
  using collapseFragments_output[of fragments h] scenario_dedup[of h q1 q2 q3] by blast

theorem collapseFragments_one_per_coordinate_witness:
  "[(''R1'', frag_AAAA), (''R2'', frag_BBBB), (''R3'', frag_BBBB)] \<noteq> [] \<and>
   (\<not> incomplete frag_AAAA \<and> bar_free frag_AAAA) \<and>
   (\<not> incomplete frag_BBBB \<and> bar_free frag_BBBB) \<and>
   collapseFragments first_seen [(''R1'', frag_AAAA), (''R2'', frag_BBBB), (''R3'', frag_BBBB)] =
     Inr [([''chr1'', ''106'', ''245''], Some ''BBBB'', 3)] \<and>
   card (coord ` set (map snd [(''R1'', frag_AAAA), (''R2'', frag_BBBB), (''R3'', frag_BBBB)])) = 1 \<and>
   reads_at (map snd [(''R1'', frag_AAAA), (''R2'', frag_BBBB), (''R3'', frag_BBBB)])
     (coord frag_BBBB) = 3"
proof -
  let ?fr = "[(''R1'', frag_AAAA), (''R2'', frag_BBBB), (''R3'', frag_BBBB)]"
  have hyp: "?fr \<noteq> [] \<and> (\<forall>f \<in> set (map snd ?fr). \<not> incomplete f \<and> bar_free f)"
    using well_formed_examples by simp
  have "?fr \<noteq> [] \<and> (\<forall>f \<in> set (map snd ?fr). \<not> incomplete f \<and> bar_free f) \<longrightarrow>
      (\<exists>out. collapseFragments first_seen ?fr = Inr out \<and>
         distinct (map fst out) \<and>
         set (map fst out) = coord_strs ` coord ` set (map snd ?fr) \<and>
         length out = card (coord ` set (map snd ?fr)) \<and>
         (\<forall>row \<in> set out. \<forall>f \<in> set (map snd ?fr). fst row = coord_strs (coord f) \<longrightarrow>
            snd (snd row) = reads_at (map snd ?fr) (coord f) \<and>
            (\<forall>b'. occurrences (map snd ?fr) (coord f) b' \<le>
                  occurrences (map snd ?fr) (coord f) (fst (snd row))) \<and>
            0 < occurrences (map snd ?fr) (coord f) (fst (snd row))))"
    by (rule conjunct1[OF collapseFragments_one_per_coordinate[of ?fr first_seen]])
  from this hyp have "\<exists>out. collapseFragments first_seen ?fr = Inr out \<and>
         distinct (map fst out) \<and>
         set (map fst out) = coord_strs ` coord ` set (map snd ?fr) \<and>
         length out = card (coord ` set (map snd ?fr)) \<and>
         (\<forall>row \<in> set out. \<forall>f \<in> set (map snd ?fr). fst row = coord_strs (coord f) \<longrightarrow>
            snd (snd row) = reads_at (map snd ?fr) (coord f) \<and>
            (\<forall>b'. occurrences (map snd ?fr) (coord f) b' \<le>
                  occurrences (map snd ?fr) (coord f) (fst (snd row))) \<and>
            0 < occurrences (map snd ?fr) (coord f) (fst (snd row)))"
    by (rule mp)
  then obtain out where out: "collapseFragments first_seen ?fr = Inr out"
    and l: "length out = card (coord ` set (map snd ?fr))"
    and p: "\<forall>row \<in> set out. \<forall>f \<in> set (map snd ?fr). fst row = coord_strs (coord f) \<longrightarrow>
            snd (snd row) = reads_at (map snd ?fr) (coord f) \<and>
            (\<forall>b'. occurrences (map snd ?fr) (coord f) b' \<le>
                  occurrences (map snd ?fr) (coord f) (fst (snd row))) \<and>
            0 < occurrences (map snd ?fr) (coord f) (fst (snd row))"
    by (elim exE conjE)
  from out have o: "out = [([''chr1'', ''106'', ''245''], Some ''BBBB'', 3)]"
    by (simp only: collapse_ABB sum.inject)
  have s: "coord_strs (coord frag_BBBB) = [''chr1'', ''106'', ''245'']"
    by (simp add: coord_strs_def coord_def frag_BBBB_def str_int_106 str_int_245)
  have c: "card (coord ` set (map snd ?fr)) = 1"
    using l by (simp only: o) simp
  have "([''chr1'', ''106'', ''245''], Some ''BBBB'', 3) \<in> set out" by (simp only: o) simp
  moreover have "frag_BBBB \<in> set (map snd ?fr)" by simp
  ultimately have "fst ([''chr1'', ''106'', ''245''], Some ''BBBB'', 3::nat) = coord_strs (coord frag_BBBB) \<longrightarrow>
            snd (snd ([''chr1'', ''106'', ''245''], Some ''BBBB'', 3::nat)) = reads_at (map snd ?fr) (coord frag_BBBB) \<and>
            (\<forall>b'. occurrences (map snd ?fr) (coord frag_BBBB) b' \<le>
                  occurrences (map snd ?fr) (coord frag_BBBB) (fst (snd ([''chr1'', ''106'', ''245''], Some ''BBBB'', 3::nat)))) \<and>
            0 < occurrences (map snd ?fr) (coord frag_BBBB) (fst (snd ([''chr1'', ''106'', ''245''], Some ''BBBB'', 3::nat)))"
    using p by blast
  then have r: "reads_at (map snd ?fr) (coord frag_BBBB) = 3"
    by (simp only: fst_conv snd_conv s)
  show ?thesis
    using well_formed_examples(1,2) collapse_ABB c r by (intro conjI) simp_all
qed

text \<open>
  C3: whenever collapseFragments returns its rows, on any input and for any iteration
  order of the sets, the counts of the rows add up to the number of fragments given:
  every item of the counter lands in one cell of the matrix. Rows are returned for every
  non-empty collection of completed fragments whose chromosome names and barcodes do not
  contain the separator \<open>|\<close>.
\<close>

theorem collapseFragments_conserves_reads:
  "(collapseFragments h fragments = Inr out \<longrightarrow>
      sum_list (map (\<lambda>row. snd (snd row)) out) = length fragments) \<and>
   (fragments \<noteq> [] \<and> (\<forall>f \<in> set (map snd fragments). \<not> incomplete f \<and> bar_free f) \<longrightarrow>
      (\<exists>out'. collapseFragments h fragments = Inr out' \<and>
         sum_list (map (\<lambda>row. snd (snd row)) out') = length fragments))"
proof (intro conjI impI)
  assume "collapseFragments h fragments = Inr out"
  then show "sum_list (map (\<lambda>row. snd (snd row)) out) = length fragments"
    by (rule collapseFragments_conserves)
next
  assume "fragments \<noteq> [] \<and> (\<forall>f \<in> set (map snd fragments). \<not> incomplete f \<and> bar_free f)"
  then obtain out' where o: "collapseFragments h fragments = Inr out'"
    using collapseFragments_output[of fragments h] by blast
  from collapseFragments_conserves[OF o] o
  show "\<exists>out'. collapseFragments h fragments = Inr out' \<and>
         sum_list (map (\<lambda>row. snd (snd row)) out') = length fragments"
    by blast
qed

theorem collapseFragments_conserves_reads_witness:
  "collapseFragments first_seen [(''R1'', frag_AAAA), (''R2'', frag_BBBB), (''R3'', frag_CCCC)] =
     Inr [([''chr1'', ''106'', ''245''], Some ''AAAA'', 2),
          ([''chr1'', ''300'', ''450''], Some ''CCCC'', 1)] \<and>
   [(''R1'', frag_AAAA), (''R2'', frag_BBBB), (''R3'', frag_CCCC)] \<noteq> [] \<and>
   (\<not> incomplete frag_AAAA \<and> bar_free frag_AAAA) \<and>
   (\<not> incomplete frag_BBBB \<and> bar_free frag_BBBB) \<and>
   (\<not> incomplete frag_CCCC \<and> bar_free frag_CCCC) \<and>
   sum_list (map (\<lambda>row. snd (snd row))
     [([''chr1'', ''106'', ''245''], Some ''AAAA'', 2::nat),
      ([''chr1'', ''300'', ''450''], Some ''CCCC'', 1)]) =
   length [(''R1'', frag_AAAA), (''R2'', frag_BBBB), (''R3'', frag_CCCC)]"
proof -
  let ?fr = "[(''R1'', frag_AAAA), (''R2'', frag_BBBB), (''R3'', frag_CCCC)]"
  let ?out = "[([''chr1'', ''106'', ''245''], Some ''AAAA'', 2::nat),
               ([''chr1'', ''300'', ''450''], Some ''CCCC'', 1)]"
  have hyp: "?fr \<noteq> [] \<and> (\<forall>f \<in> set (map snd ?fr). \<not> incomplete f \<and> bar_free f)"
    using well_formed_examples by simp
  from collapseFragments_conserves_reads[of first_seen ?fr ?out] collapse_ABC hyp
  have "sum_list (map (\<lambda>row. snd (snd row)) ?out) = length ?fr" by blast
  with collapse_ABC well_formed_examples show ?thesis by simp
qed

text \<open>
  C5: the claim says that an empty collection gives an empty list. The code raises
  ValueError instead: both lookup tables are empty, and \<open>max\<close> of line 52 is applied
  to an empty sequence. This holds for every iteration order of the sets.
\<close>

theorem collapseFragments_empty_raises:
  "collapseFragments h [] = Inl ValueError"
  by (simp add: collapseFragments_def id_lookup_def py_set_Nil dict_of_def Counter_def
      max_values_def)

end
